theory Spec2Isabelle
  imports Main "HOL-Library.Word"
begin

unbundle bit_operations_syntax

section \<open>Machine types and the pass-through message\<close>

text \<open>
  The proxy is a pass-through (J2534) library, built for the 32-bit target of that API:
  \<open>unsigned long\<close>, \<open>size_t\<close>, \<open>unsigned int\<close> and \<open>off_t\<close> are 32 bits wide, and all
  arithmetic on them wraps modulo \<open>2 ^ 32\<close>. Bytes are \<open>uint8_t\<close>.
\<close>

type_synonym u8 = "8 word"
type_synonym u32 = "32 word"
type_synonym ulong = "32 word"

text \<open>
  Modelled from the spec: \<open>PASSTHRU_MSG\<close>, declared in \<open>j2534.h\<close> (not under \<open>src/\<close>): a
  protocol tag, a receive-status bitfield, a transmit-flags bitfield, a timestamp, a data
  length, an extra-data index and a fixed-capacity data buffer. These are the fields
  \<open>iso15765.cpp\<close> reads and writes. The data buffer is addressed by index.
\<close>

record PASSTHRU_MSG =
  ProtocolID :: ulong
  RxStatus :: ulong
  TxFlags :: ulong
  Timestamp :: ulong
  DataSize :: ulong
  ExtraDataIndex :: ulong
  Data :: "nat \<Rightarrow> u8"

text \<open>
  The numeric constants of \<open>j2534.h\<close> used by \<open>iso15765.cpp\<close>. They are a parameter of the
  model; the standard values are \<open>CAN = 5\<close>, \<open>ISO15765 = 6\<close>, \<open>ISO15765_FRAME_PAD = 0x40\<close>,
  \<open>ISO15765_ADDR_TYPE = 0x80\<close>, \<open>ISO15765_BS = 0x1E\<close>, \<open>ISO15765_STMIN = 0x1F\<close>.
\<close>

record j2534_h =
  CAN :: ulong
  ISO15765 :: ulong
  ISO15765_FRAME_PAD :: ulong
  ISO15765_ADDR_TYPE :: ulong
  ISO15765_BS :: ulong
  ISO15765_STMIN :: ulong

definition j2534_std :: j2534_h where
  "j2534_std = \<lparr>CAN = 5, ISO15765 = 6, ISO15765_FRAME_PAD = 0x40,
     ISO15765_ADDR_TYPE = 0x80, ISO15765_BS = 0x1E, ISO15765_STMIN = 0x1F\<rparr>"

datatype J2534Exception = ERR_INVALID_MSG | ERR_NULLPARAMETER

text \<open>The bytes a message carries: the first \<open>DataSize\<close> bytes of its buffer.\<close>

definition frame_bytes :: "PASSTHRU_MSG \<Rightarrow> u8 list" where
  "frame_bytes m = map (Data m) [0..<unat (DataSize m)]"

text \<open>\<open>memcpy(&dst[d], &src[s], n)\<close> on two distinct buffers.\<close>

definition memcpy :: "(nat \<Rightarrow> u8) \<Rightarrow> nat \<Rightarrow> (nat \<Rightarrow> u8) \<Rightarrow> nat \<Rightarrow> nat \<Rightarrow> (nat \<Rightarrow> u8)" where
  "memcpy dst d src s n = (\<lambda>i. if d \<le> i \<and> i < d + n then src (s + (i - d)) else dst i)"

section \<open>DeviceISO15765::connect\<close>

text \<open>
  The channel handed back to the caller is either the wrapped device's channel as it is,
  or a \<open>ChannelISO15765\<close> built around it. The wrapped device's \<open>connect\<close> is a parameter.
  The result also records the protocol id that was delegated.
\<close>

datatype 'c ChannelPtr = Plain 'c | ChannelISO15765_around 'c

definition connect ::
  "j2534_h \<Rightarrow> (ulong \<Rightarrow> ulong \<Rightarrow> ulong \<Rightarrow> 'c) \<Rightarrow> ulong \<Rightarrow> ulong \<Rightarrow> ulong \<Rightarrow> ulong \<times> 'c ChannelPtr" where
  "connect K mDevice_connect protocolID flags baudRate =
     (let protocolID = (if protocolID AND 0x1FFF = ISO15765 K then protocolID - 1 else protocolID);
          ret = mDevice_connect protocolID flags baudRate;
          ret = (if protocolID AND 0x1FFF = ISO15765 K then ChannelISO15765_around ret else Plain ret)
      in (protocolID, ret))"

section \<open>Frame codec\<close>

definition data2pid :: "(nat \<Rightarrow> u8) \<Rightarrow> u32" where
  "data2pid d =
     (let pid = 0;
          pid = pid OR push_bit 24 (ucast (0x1F AND d 0));
          pid = pid OR push_bit 16 (ucast (0xFF AND d 1));
          pid = pid OR push_bit 8 (ucast (0xFF AND d 2));
          pid = pid OR push_bit 0 (ucast (0xFF AND d 3))
      in pid)"

definition pid2Data :: "u32 \<Rightarrow> (nat \<Rightarrow> u8) \<Rightarrow> (nat \<Rightarrow> u8)" where
  "pid2Data pid d =
     d(0 := ucast (0x1F AND drop_bit 24 pid),
       1 := ucast (0xFF AND drop_bit 16 pid),
       2 := ucast (0xFF AND drop_bit 8 pid),
       3 := ucast (0xFF AND drop_bit 0 pid))"

datatype PCIFrameName = SingleFrame | FirstFrame | ConsecutiveFrame | FlowControl | UnknownFrame

definition IS_SF :: "u8 \<Rightarrow> bool" where "IS_SF d = (drop_bit 4 (d AND 0xF0) = 0)"
definition IS_FF :: "u8 \<Rightarrow> bool" where "IS_FF d = (drop_bit 4 (d AND 0xF0) = 1)"
definition IS_CF :: "u8 \<Rightarrow> bool" where "IS_CF d = (drop_bit 4 (d AND 0xF0) = 2)"
definition IS_FC :: "u8 \<Rightarrow> bool" where "IS_FC d = (drop_bit 4 (d AND 0xF0) = 3)"

definition getFrameName :: "u8 \<Rightarrow> PCIFrameName" where
  "getFrameName pci =
     (if IS_SF pci then SingleFrame
      else if IS_FF pci then FirstFrame
      else if IS_CF pci then ConsecutiveFrame
      else if IS_FC pci then FlowControl
      else UnknownFrame)"

fun getPci :: "PCIFrameName \<Rightarrow> u8" where
  "getPci SingleFrame = push_bit 4 0x0"
| "getPci FirstFrame = push_bit 4 0x1"
| "getPci ConsecutiveFrame = push_bit 4 0x2"
| "getPci FlowControl = push_bit 4 0x3"
| "getPci UnknownFrame = push_bit 4 0xf"

definition getRemainingSize :: "PASSTHRU_MSG \<Rightarrow> ulong \<Rightarrow> ulong" where
  "getRemainingSize msg offset =
     (let ret = DataSize msg - offset in if ret > 7 then 7 else ret)"

definition prepareSentMessageHeaders :: "j2534_h \<Rightarrow> PASSTHRU_MSG \<Rightarrow> PASSTHRU_MSG \<Rightarrow> PASSTHRU_MSG" where
  "prepareSentMessageHeaders K out_msg in_msg =
     out_msg\<lparr>ProtocolID := CAN K,
             RxStatus := 0,
             TxFlags := TxFlags in_msg AND NOT (ISO15765_FRAME_PAD K OR ISO15765_ADDR_TYPE K),
             Timestamp := 0,
             DataSize := 0,
             ExtraDataIndex := 0,
             Data := memcpy (Data out_msg) 0 (Data in_msg) 0 4\<rparr>"

definition prepareReceivedMessageHeaders :: "j2534_h \<Rightarrow> PASSTHRU_MSG \<Rightarrow> PASSTHRU_MSG \<Rightarrow> PASSTHRU_MSG" where
  "prepareReceivedMessageHeaders K out_msg in_msg =
     out_msg\<lparr>ProtocolID := ISO15765 K,
             RxStatus := RxStatus in_msg,
             TxFlags := 0,
             Timestamp := 0,
             DataSize := 0,
             ExtraDataIndex := 0,
             Data := memcpy (Data out_msg) 0 (Data in_msg) 0 4\<rparr>"

text \<open>
  \<open>paddingMessage\<close> zeroes the bytes from \<open>DataSize\<close> up to the 12th. At each of its call
  sites \<open>DataSize\<close> is at most 12, so the conversion of \<open>DataSize\<close> to \<open>int\<close> is exact.
\<close>

definition paddingMessage :: "PASSTHRU_MSG \<Rightarrow> PASSTHRU_MSG" where
  "paddingMessage smsg =
     smsg\<lparr>Data := (\<lambda>i. if unat (DataSize smsg) \<le> i \<and> i < 8 + 4 then 0 else Data smsg i),
          DataSize := 8 + 4\<rparr>"

section \<open>The world outside: steady clock and wrapped CAN channel\<close>

text \<open>
  The wrapped channel and the steady clock are not code of this file. They are an oracle:
  the \<open>k\<close>-th reading of the clock (in milliseconds), the count the \<open>k\<close>-th call of the
  wrapped \<open>writeMsgs\<close> reports, and what the \<open>k\<close>-th call of the wrapped \<open>readMsgs\<close>
  reports and leaves in the caller's buffer. \<open>uninit\<close> is the content of an uninitialised
  local message. The calls made so far are counted and logged in \<open>io\<close>. Sleeping has no
  effect other than on later clock readings, which are arbitrary anyway.
\<close>

record env =
  now_at :: "nat \<Rightarrow> int"
  wr_count :: "nat \<Rightarrow> ulong"
  rd_reply :: "nat \<Rightarrow> PASSTHRU_MSG \<Rightarrow> ulong \<times> PASSTHRU_MSG"
  uninit :: PASSTHRU_MSG

datatype event = Wr PASSTHRU_MSG ulong | Rd ulong PASSTHRU_MSG

record io =
  tick :: nat
  nwr :: nat
  nrd :: nat
  trace :: "event list"

definition io0 :: io where
  "io0 = \<lparr>tick = 0, nwr = 0, nrd = 0, trace = []\<rparr>"

definition steady_clock_now :: "env \<Rightarrow> io \<Rightarrow> int \<times> io" where
  "steady_clock_now E w = (now_at E (tick w), w\<lparr>tick := Suc (tick w)\<rparr>)"

text \<open>\<open>mChannel.writeMsgs(&m, &count, Timeout)\<close> with \<open>count = 1\<close> on entry.\<close>

definition mChannel_writeMsgs :: "env \<Rightarrow> io \<Rightarrow> PASSTHRU_MSG \<Rightarrow> ulong \<times> io" where
  "mChannel_writeMsgs E w m =
     (let c = wr_count E (nwr w)
      in (c, w\<lparr>nwr := Suc (nwr w), trace := trace w @ [Wr m c]\<rparr>))"

text \<open>\<open>mChannel.readMsgs(&buf, &count, Timeout)\<close> with \<open>count = 1\<close> on entry.\<close>

definition mChannel_readMsgs :: "env \<Rightarrow> io \<Rightarrow> PASSTHRU_MSG \<Rightarrow> (ulong \<times> PASSTHRU_MSG) \<times> io" where
  "mChannel_readMsgs E w buf =
     (let (c, m) = rd_reply E (nrd w) buf
      in ((c, m), w\<lparr>nrd := Suc (nrd w), trace := trace w @ [Rd c m]\<rparr>))"

text \<open>
  The remaining time \<open>deadline - now\<close> in milliseconds, stored into the
  \<open>unsigned long Timeout\<close>.
\<close>

definition remaining :: "int \<Rightarrow> int \<Rightarrow> ulong" where
  "remaining deadline now = word_of_int (deadline - now)"

section \<open>ISO15765Transfer\<close>

text \<open>
  Modelled from the spec: the declaration of the class, in \<open>iso15765.h\<close> (not under
  \<open>src/\<close>): the three states, and the members that \<open>iso15765.cpp\<close> uses. The identifiers
  are \<open>uint32_t\<close>; the offset, the sequence counter, the block size and the separation
  time are 32 bits wide.
\<close>

datatype TransferState = START_STATE | FLOW_CONTROL_STATE | BLOCK_STATE

record ISO15765Transfer =
  mMaskPid :: u32
  mPatternPid :: u32
  mFlowControlPid :: u32
  mState :: TransferState
  mOffset :: ulong
  mSequence :: u32
  mBs :: ulong
  mStmin :: ulong
  mMessage :: PASSTHRU_MSG

definition clear :: "ISO15765Transfer \<Rightarrow> ISO15765Transfer" where
  "clear t = t\<lparr>mState := START_STATE, mOffset := 0, mSequence := 0, mBs := 0, mStmin := 0\<rparr>"

text \<open>The constructor, run on the raw storage \<open>raw\<close> of the new object.\<close>

definition ISO15765Transfer_ctor ::
  "ISO15765Transfer \<Rightarrow> PASSTHRU_MSG \<Rightarrow> PASSTHRU_MSG \<Rightarrow> PASSTHRU_MSG \<Rightarrow> ISO15765Transfer" where
  "ISO15765Transfer_ctor raw pMaskMsg pPatternMsg pFlowControlMsg =
     clear (raw\<lparr>mState := START_STATE,
                mMaskPid := data2pid (Data pMaskMsg),
                mPatternPid := data2pid (Data pPatternMsg),
                mFlowControlPid := data2pid (Data pFlowControlMsg)\<rparr>)"

text \<open>The reset state: what \<open>clear\<close> leaves.\<close>

definition is_reset :: "ISO15765Transfer \<Rightarrow> bool" where
  "is_reset t = (mState t = START_STATE \<and> mOffset t = 0 \<and> mSequence t = 0 \<and> mBs t = 0 \<and> mStmin t = 0)"

subsection \<open>writeMsg\<close>

text \<open>
  One iteration of the \<open>while\<close> loop of \<open>writeMsg\<close>, one definition per state. The result is
  \<open>Inl\<close> when the iteration leaves the function through \<open>fail\<close> (the value returned, the
  transfer and the world), and \<open>Inr\<close> when the loop goes on. \<open>tmp_msg\<close> is a reference to
  the member \<open>mMessage\<close>: what is written to it is written to the transfer. In the two
  states that send a frame, the statements that fill the frame (\<open>..._fill\<close>) come first,
  then the call of the wrapped channel.
\<close>

definition writeMsg_start_fill ::
  "j2534_h \<Rightarrow> PASSTHRU_MSG \<Rightarrow> ISO15765Transfer \<Rightarrow> ISO15765Transfer" where
  "writeMsg_start_fill K msg t =
     (let t = t\<lparr>mOffset := 4\<rparr>;
          tmp_msg = prepareSentMessageHeaders K (mMessage t) msg;
          frameName = SingleFrame;
          size = getRemainingSize msg (mOffset t);
          frameName = (if size < DataSize msg - mOffset t then FirstFrame else frameName);
          (tmp_msg, size, t) =
            (if frameName = FirstFrame then
               (let fullsize = DataSize msg - mOffset t;
                    d = (Data tmp_msg)
                          (4 := ucast ((ucast (getPci frameName) AND 0xF0) OR (drop_bit 8 fullsize AND 0x0F)));
                    d = d(4 + 1 := ucast (fullsize AND 0xFF));
                    size = 8 - 1 - 1;
                    t = t\<lparr>mSequence := mSequence t + 1\<rparr>;
                    tmp_msg = tmp_msg\<lparr>DataSize := 4 + 1 + 1 + size\<rparr>;
                    tmp_msg = tmp_msg\<lparr>Data := memcpy d (4 + 1 + 1) (Data msg) (unat (mOffset t)) (unat size)\<rparr>
                in (tmp_msg, size, t))
             else
               (let d = (Data tmp_msg)
                          (4 := ucast ((ucast (getPci frameName) AND 0xF0) OR (size AND 0x0F)));
                    tmp_msg = tmp_msg\<lparr>DataSize := 4 + 1 + size\<rparr>;
                    tmp_msg = tmp_msg\<lparr>Data := memcpy d (4 + 1) (Data msg) (unat (mOffset t)) (unat size)\<rparr>
                in (tmp_msg, size, t)));
          t = t\<lparr>mOffset := mOffset t + size\<rparr>;
          tmp_msg = (if TxFlags msg AND ISO15765_FRAME_PAD K \<noteq> 0 then paddingMessage tmp_msg else tmp_msg)
      in t\<lparr>mMessage := tmp_msg\<rparr>)"

definition writeMsg_start ::
  "j2534_h \<Rightarrow> env \<Rightarrow> PASSTHRU_MSG \<Rightarrow> ISO15765Transfer \<Rightarrow> io
     \<Rightarrow> (bool \<times> ISO15765Transfer \<times> io) + (ISO15765Transfer \<times> io)" where
  "writeMsg_start K E msg t w =
     (let t = writeMsg_start_fill K msg t;
          (count, w) = mChannel_writeMsgs E w (mMessage t)
      in if count \<noteq> 1 then Inl (False, clear t, w)
         else Inr (t\<lparr>mState := FLOW_CONTROL_STATE\<rparr>, w))"

definition writeMsg_flow_control ::
  "env \<Rightarrow> ISO15765Transfer \<Rightarrow> io
     \<Rightarrow> (bool \<times> ISO15765Transfer \<times> io) + (ISO15765Transfer \<times> io)" where
  "writeMsg_flow_control E t w =
     (let ((count, tmp_msg), w) = mChannel_readMsgs E w (mMessage t);
          t = t\<lparr>mMessage := tmp_msg\<rparr>
      in if count \<noteq> 1 then Inl (False, clear t, w)
         else if DataSize tmp_msg < 4 then Inl (False, clear t, w)
         else if data2pid (Data tmp_msg) AND mMaskPid t \<noteq> mPatternPid t then Inl (False, clear t, w)
         else if getFrameName (Data tmp_msg 4) \<noteq> FlowControl then Inl (False, clear t, w)
         else
           (let t = t\<lparr>mBs := ucast (Data tmp_msg (4 + 1))\<rparr>;
                t = t\<lparr>mStmin := ucast (Data tmp_msg (4 + 1 + 1))\<rparr>
            in Inr (t\<lparr>mState := BLOCK_STATE\<rparr>, w)))"

definition writeMsg_block_fill ::
  "j2534_h \<Rightarrow> PASSTHRU_MSG \<Rightarrow> ISO15765Transfer \<Rightarrow> ISO15765Transfer" where
  "writeMsg_block_fill K msg t =
     (let tmp_msg = prepareSentMessageHeaders K (mMessage t) msg;
          frameName = ConsecutiveFrame;
          size = getRemainingSize msg (mOffset t);
          d = (Data tmp_msg)
                (4 := ucast ((ucast (getPci frameName) AND 0xF0) OR (mSequence t AND 0x0F)));
          t = t\<lparr>mSequence := mSequence t + 1\<rparr>;
          tmp_msg = tmp_msg\<lparr>DataSize := 4 + 1 + size\<rparr>;
          tmp_msg = tmp_msg\<lparr>Data := memcpy d (4 + 1) (Data msg) (unat (mOffset t)) (unat size)\<rparr>;
          t = t\<lparr>mOffset := mOffset t + size\<rparr>;
          tmp_msg = (if TxFlags msg AND ISO15765_FRAME_PAD K \<noteq> 0 then paddingMessage tmp_msg else tmp_msg)
      in t\<lparr>mMessage := tmp_msg\<rparr>)"

definition writeMsg_block ::
  "j2534_h \<Rightarrow> env \<Rightarrow> PASSTHRU_MSG \<Rightarrow> ISO15765Transfer \<Rightarrow> io
     \<Rightarrow> (bool \<times> ISO15765Transfer \<times> io) + (ISO15765Transfer \<times> io)" where
  "writeMsg_block K E msg t w =
     (let t = writeMsg_block_fill K msg t;
          (count, w) = mChannel_writeMsgs E w (mMessage t)
      in if count \<noteq> 1 then Inl (False, clear t, w)
         else
           (let t = t\<lparr>mBs := mBs t - 1\<rparr>;
                t = (if mBs t = 0 then t\<lparr>mState := FLOW_CONTROL_STATE\<rparr> else t)
            in Inr (t, w)))"

text \<open>
  The body of the loop: the clock is read, and a remaining time of zero returns \<open>false\<close>
  at once (\<open>Timeout\<close> is unsigned, so \<open>Timeout <= 0\<close> is \<open>Timeout == 0\<close>).
\<close>

definition writeMsg_body ::
  "j2534_h \<Rightarrow> env \<Rightarrow> int \<Rightarrow> PASSTHRU_MSG \<Rightarrow> ISO15765Transfer \<Rightarrow> io
     \<Rightarrow> (bool \<times> ISO15765Transfer \<times> io) + (ISO15765Transfer \<times> io)" where
  "writeMsg_body K E deadline msg t w =
     (let (now, w) = steady_clock_now E w;
          timeout = remaining deadline now
      in if timeout \<le> 0 then Inl (False, t, w)
         else (case mState t of
                 START_STATE \<Rightarrow> writeMsg_start K E msg t w
               | FLOW_CONTROL_STATE \<Rightarrow> writeMsg_flow_control E t w
               | BLOCK_STATE \<Rightarrow> writeMsg_block K E msg t w))"

text \<open>What decreases from one iteration to the next.\<close>

definition writeMsg_rank :: "PASSTHRU_MSG \<Rightarrow> ISO15765Transfer \<Rightarrow> nat" where
  "writeMsg_rank msg t =
     (case mState t of
        START_STATE \<Rightarrow> 2 * 2 ^ 32 + 2
      | FLOW_CONTROL_STATE \<Rightarrow> 2 * unat (DataSize msg - mOffset t) + 1
      | BLOCK_STATE \<Rightarrow> 2 * unat (DataSize msg - mOffset t))"

lemma getRemainingSize_advance:
  fixes ds :: ulong
  assumes lt: "off < ds" and eq: "(let ret = ds - off in if ret > 7 then 7 else ret) = s"
  shows "unat (ds - (off + s)) < unat (ds - off)"
proof (cases "ds - off > 7")
  case True
  then have "s = 7" using eq by (simp add: Let_def)
  with True lt show ?thesis by unat_arith
next
  case False
  then have "s = ds - off" using eq by (simp add: Let_def)
  then have "ds - (off + s) = 0" by simp
  moreover have "0 < unat (ds - off)" using lt by (simp add: unat_gt_0)
  ultimately show ?thesis by simp
qed

lemma writeMsg_start_Inr:
  "writeMsg_start K E msg t w = Inr (t', w') \<Longrightarrow> mState t' = FLOW_CONTROL_STATE"
  by (auto simp: writeMsg_start_def Let_def split: if_splits prod.splits)

lemma writeMsg_flow_control_Inr:
  "writeMsg_flow_control E t w = Inr (t', w') \<Longrightarrow> mState t' = BLOCK_STATE \<and> mOffset t' = mOffset t"
  by (auto simp: writeMsg_flow_control_def Let_def mChannel_readMsgs_def split: if_splits prod.splits)

lemma writeMsg_block_fill_fields:
  "mOffset (writeMsg_block_fill K msg t) = mOffset t + getRemainingSize msg (mOffset t)"
  "mSequence (writeMsg_block_fill K msg t) = mSequence t + 1"
  "mState (writeMsg_block_fill K msg t) = mState t"
  "mBs (writeMsg_block_fill K msg t) = mBs t"
  "mStmin (writeMsg_block_fill K msg t) = mStmin t"
  "mMaskPid (writeMsg_block_fill K msg t) = mMaskPid t"
  "mPatternPid (writeMsg_block_fill K msg t) = mPatternPid t"
  "mFlowControlPid (writeMsg_block_fill K msg t) = mFlowControlPid t"
  by (simp_all add: writeMsg_block_fill_def Let_def)

lemma writeMsg_block_Inr:
  "writeMsg_block K E msg t w = Inr (t', w') \<Longrightarrow> mState t = BLOCK_STATE \<Longrightarrow>
     mOffset t' = mOffset t + getRemainingSize msg (mOffset t) \<and> mState t' \<noteq> START_STATE"
  by (auto simp: writeMsg_block_def Let_def writeMsg_block_fill_fields split: if_splits prod.splits)

lemma writeMsg_body_Inr:
  "writeMsg_body K E dl msg t w = Inr (t', w') \<Longrightarrow>
     (mState t = START_STATE \<and> writeMsg_start K E msg t (snd (steady_clock_now E w)) = Inr (t', w')) \<or>
     (mState t = FLOW_CONTROL_STATE \<and> writeMsg_flow_control E t (snd (steady_clock_now E w)) = Inr (t', w')) \<or>
     (mState t = BLOCK_STATE \<and> writeMsg_block K E msg t (snd (steady_clock_now E w)) = Inr (t', w'))"
  by (cases "mState t") (auto simp: writeMsg_body_def Let_def split: if_splits prod.splits)

lemma writeMsg_rank_decreases:
  assumes "mOffset t < DataSize msg" "writeMsg_body K E dl msg t w = Inr (t', w')"
  shows "writeMsg_rank msg t' < writeMsg_rank msg t"
proof -
  from writeMsg_body_Inr [OF assms(2)] consider
      (start) "mState t = START_STATE" "mState t' = FLOW_CONTROL_STATE"
    | (fc) "mState t = FLOW_CONTROL_STATE" "mState t' = BLOCK_STATE" "mOffset t' = mOffset t"
    | (block) "mState t = BLOCK_STATE" "mState t' \<noteq> START_STATE"
        "mOffset t' = mOffset t + getRemainingSize msg (mOffset t)"
    using writeMsg_start_Inr writeMsg_flow_control_Inr writeMsg_block_Inr by blast
  then show ?thesis
  proof cases
    case start
    have "unat (DataSize msg - mOffset t') < 2 ^ 32"
      using unsigned_less [of "DataSize msg - mOffset t'"] by simp
    with start show ?thesis by (simp add: writeMsg_rank_def)
  next
    case fc
    then show ?thesis by (simp add: writeMsg_rank_def)
  next
    case block
    have "unat (DataSize msg - mOffset t') < unat (DataSize msg - mOffset t)"
      using getRemainingSize_advance [OF assms(1), of "getRemainingSize msg (mOffset t)"] block(3)
      by (simp add: getRemainingSize_def)
    with block show ?thesis by (cases "mState t'") (simp_all add: writeMsg_rank_def)
  qed
qed

text \<open>The \<open>while\<close> loop of \<open>writeMsg\<close>, with what follows it.\<close>

function writeMsg_loop ::
  "j2534_h \<Rightarrow> env \<Rightarrow> int \<Rightarrow> PASSTHRU_MSG \<Rightarrow> ISO15765Transfer \<Rightarrow> io \<Rightarrow> bool \<times> ISO15765Transfer \<times> io" where
  "writeMsg_loop K E deadline msg t w =
     (if DataSize msg > mOffset t then
        (case writeMsg_body K E deadline msg t w of
           Inl r \<Rightarrow> r
         | Inr (t', w') \<Rightarrow> writeMsg_loop K E deadline msg t' w')
      else (True, clear t, w))"
  by pat_completeness auto
termination
  by (relation "measure (\<lambda>(K, E, deadline, msg, t, w). writeMsg_rank msg t)")
     (auto simp: writeMsg_rank_decreases)

declare writeMsg_loop.simps [simp del]

text \<open>
  \<open>writeMsg\<close>: the deadline is taken first, then the sanity checks, then the loop. The
  result is the exception thrown or the value returned, with the transfer and the world
  as the call leaves them.
\<close>

definition writeMsg ::
  "j2534_h \<Rightarrow> env \<Rightarrow> io \<Rightarrow> ISO15765Transfer \<Rightarrow> PASSTHRU_MSG \<Rightarrow> ulong
     \<Rightarrow> (J2534Exception + bool) \<times> ISO15765Transfer \<times> io" where
  "writeMsg K E w t msg timeout =
     (let (now, w) = steady_clock_now E w;
          deadline = now + uint timeout
      in if DataSize msg < 4 then (Inl ERR_INVALID_MSG, t, w)
         else if mState t \<noteq> START_STATE then (Inr False, clear t, w)
         else (case writeMsg_loop K E deadline msg t w of (r, t', w') \<Rightarrow> (Inr r, t', w')))"

subsection \<open>sendFlowControlMessage and readMsg\<close>

text \<open>
  Modelled from the spec: \<open>Configuration::getValue\<close>, whose class is not under \<open>src/\<close>. The
  store maps a key to its value; a key that was never set leaves the caller's variable as
  it is (the caller presets it to 0).
\<close>

type_synonym Configuration = "ulong \<rightharpoonup> ulong"

definition getValue :: "Configuration \<Rightarrow> ulong \<Rightarrow> ulong \<Rightarrow> ulong" where
  "getValue cfg key var = (case cfg key of None \<Rightarrow> var | Some v \<Rightarrow> v)"

definition sendFlowControlMessage ::
  "j2534_h \<Rightarrow> env \<Rightarrow> Configuration \<Rightarrow> ISO15765Transfer \<Rightarrow> io \<Rightarrow> bool \<times> ISO15765Transfer \<times> io" where
  "sendFlowControlMessage K E cfg t w =
     (let tmp_msg = uninit E;
          t = t\<lparr>mBs := 0\<rparr>;
          t = t\<lparr>mBs := getValue cfg (ISO15765_BS K) (mBs t)\<rparr>;
          t = t\<lparr>mStmin := 0\<rparr>;
          t = t\<lparr>mStmin := getValue cfg (ISO15765_STMIN K) (mStmin t)\<rparr>;
          tmp_msg = tmp_msg\<lparr>ProtocolID := CAN K, RxStatus := 0, TxFlags := 0, Timestamp := 0,
                            DataSize := 4 + 1 + 1 + 1, ExtraDataIndex := 0\<rparr>;
          d = pid2Data (mFlowControlPid t) (Data tmp_msg);
          d = d(4 := getPci FlowControl);
          d = d(4 + 1 := ucast (mBs t));
          d = d(4 + 1 + 1 := ucast (mStmin t));
          tmp_msg = paddingMessage (tmp_msg\<lparr>Data := d\<rparr>);
          (count, w) = mChannel_writeMsgs E w tmp_msg
      in if count \<noteq> 1 then (False, t, w) else (True, t, w))"

text \<open>
  \<open>readMsg\<close> has three \<open>return\<close> statements: \<open>true\<close> when the message is complete, \<open>false\<close>
  after the state blocks when more frames are needed, and \<open>false\<close> after the label
  \<open>fail\<close>. \<open>readMsg_exit\<close> tells which one was taken; \<open>readMsg\<close> is the \<open>bool\<close> the caller
  sees. \<open>out_msg\<close> is only ever written, as a whole: the result holds the message stored
  into it, if any.
\<close>

datatype ReadExit = Complete | Pending | Failed

definition readMsg_finish ::
  "ISO15765Transfer \<Rightarrow> io \<Rightarrow> ReadExit \<times> PASSTHRU_MSG option \<times> ISO15765Transfer \<times> io" where
  "readMsg_finish t w =
     (if mOffset t \<ge> DataSize (mMessage t) then (Complete, Some (mMessage t), clear t, w)
      else (Pending, None, t, w))"

definition readMsg_exit ::
  "j2534_h \<Rightarrow> env \<Rightarrow> Configuration \<Rightarrow> io \<Rightarrow> ISO15765Transfer \<Rightarrow> PASSTHRU_MSG
     \<Rightarrow> ReadExit \<times> PASSTHRU_MSG option \<times> ISO15765Transfer \<times> io" where
  "readMsg_exit K E cfg w t in_msg =
     (if DataSize in_msg < 4 then (Failed, None, clear t, w)
      else if data2pid (Data in_msg) AND mMaskPid t \<noteq> mPatternPid t then (Failed, None, clear t, w)
      else
        (let frameName = getFrameName (Data in_msg 4) in
         case mState t of
           START_STATE \<Rightarrow>
             (let read_msg = prepareReceivedMessageHeaders K (mMessage t) in_msg;
                  t = t\<lparr>mOffset := 4\<rparr>
              in if frameName = SingleFrame then
                   (let size = ucast (Data in_msg 4 AND 0x0F);
                        read_msg = read_msg\<lparr>DataSize := 4 + size\<rparr>;
                        read_msg = read_msg\<lparr>Data := memcpy (Data read_msg) (unat (mOffset t))
                                                         (Data in_msg) (4 + 1) (unat size)\<rparr>;
                        t = t\<lparr>mOffset := mOffset t + size\<rparr>
                    in readMsg_finish (t\<lparr>mMessage := read_msg\<rparr>) w)
                 else if frameName = FirstFrame then
                   (let fullsize = push_bit 8 (ucast (Data in_msg 4 AND 0x0F))
                                     OR ucast (Data in_msg (4 + 1) AND 0xFF);
                        read_msg = read_msg\<lparr>DataSize := 4 + fullsize\<rparr>;
                        size = 8 - 1 - 1;
                        read_msg = read_msg\<lparr>Data := memcpy (Data read_msg) (unat (mOffset t))
                                                         (Data in_msg) (4 + 1 + 1) (unat size)\<rparr>;
                        t = t\<lparr>mSequence := mSequence t + 1\<rparr>;
                        t = t\<lparr>mOffset := mOffset t + size\<rparr>;
                        t = t\<lparr>mMessage := read_msg\<rparr>;
                        (ok, t, w) = sendFlowControlMessage K E cfg t w
                    in if \<not> ok then (Failed, None, clear t, w)
                       else readMsg_finish (t\<lparr>mState := BLOCK_STATE\<rparr>) w)
                 else (Failed, None, clear (t\<lparr>mMessage := read_msg\<rparr>), w))
         | BLOCK_STATE \<Rightarrow>
             (let seq = ucast (Data in_msg 4) AND 0xF
              in if seq \<noteq> mSequence t mod 0x10 then (Failed, None, clear t, w)
                 else
                   (let read_msg = mMessage t;
                        size = getRemainingSize read_msg (mOffset t);
                        read_msg = read_msg\<lparr>Data := memcpy (Data read_msg) (unat (mOffset t))
                                                         (Data in_msg) (4 + 1) (unat size)\<rparr>;
                        t = t\<lparr>mSequence := mSequence t + 1\<rparr>;
                        t = t\<lparr>mOffset := mOffset t + size\<rparr>;
                        t = t\<lparr>mMessage := read_msg\<rparr>;
                        t = t\<lparr>mBs := mBs t - 1\<rparr>
                    in if mBs t = 0 then
                         (let (ok, t, w) = sendFlowControlMessage K E cfg t w
                          in if \<not> ok then (Failed, None, clear t, w)
                             else readMsg_finish t w)
                       else readMsg_finish t w))
         | FLOW_CONTROL_STATE \<Rightarrow> (Failed, None, clear t, w)))"

definition readMsg ::
  "j2534_h \<Rightarrow> env \<Rightarrow> Configuration \<Rightarrow> io \<Rightarrow> ISO15765Transfer \<Rightarrow> PASSTHRU_MSG
     \<Rightarrow> bool \<times> PASSTHRU_MSG option \<times> ISO15765Transfer \<times> io" where
  "readMsg K E cfg w t in_msg =
     (case readMsg_exit K E cfg w t in_msg of (e, out_msg, t', w') \<Rightarrow> (e = Complete, out_msg, t', w'))"

section \<open>ChannelISO15765\<close>

text \<open>
  A filter of the registry holds the handle of the pass filter installed on the wrapped
  channel and its transfer. The registry is the channel's list of filters, in insertion
  order; a transfer is referred to by the position of its filter, and updated in place.
  The channel also carries its configuration store.
\<close>

record MessageFilterISO15765 =
  mMessageFilter :: nat
  mTransfer :: ISO15765Transfer

record ChannelISO15765 =
  mMessageFilters :: "MessageFilterISO15765 list"
  mConfiguration :: Configuration

text \<open>\<open>std::find_if\<close>: the position of the first element that satisfies \<open>P\<close>, if any.\<close>

fun find_if :: "('a \<Rightarrow> bool) \<Rightarrow> 'a list \<Rightarrow> nat option" where
  "find_if P [] = None"
| "find_if P (x # xs) = (if P x then Some 0 else map_option Suc (find_if P xs))"

definition getTransferByFlowControl :: "ChannelISO15765 \<Rightarrow> PASSTHRU_MSG \<Rightarrow> nat option" where
  "getTransferByFlowControl ch msg =
     (let pid = data2pid (Data msg)
      in find_if (\<lambda>messageFilter. mFlowControlPid (mTransfer messageFilter) = pid) (mMessageFilters ch))"

definition getTransferByPattern :: "ChannelISO15765 \<Rightarrow> PASSTHRU_MSG \<Rightarrow> nat option" where
  "getTransferByPattern ch msg =
     (let pid = data2pid (Data msg)
      in find_if (\<lambda>messageFilter. mPatternPid (mTransfer messageFilter)
                                     = (pid AND mMaskPid (mTransfer messageFilter)))
           (mMessageFilters ch))"

definition set_transfer :: "ChannelISO15765 \<Rightarrow> nat \<Rightarrow> ISO15765Transfer \<Rightarrow> ChannelISO15765" where
  "set_transfer ch k t =
     ch\<lparr>mMessageFilters := (mMessageFilters ch)[k := (mMessageFilters ch ! k)\<lparr>mTransfer := t\<rparr>]\<rparr>"

text \<open>
  One pass through the body of the inner \<open>while (true)\<close> of \<open>readMsgs\<close>. It ends in
  \<open>goto end\<close>, in \<open>break\<close> (after \<open>count++\<close>) or at the bottom of the body. \<open>pMsg\<close> is the
  caller's array; \<open>*pMsg\<close> is its first element. \<open>readMsg\<close> is the local buffer of the
  function, declared before the loops.
\<close>

datatype ctl = GotoEnd | Break | Continue

definition readMsgs_body ::
  "j2534_h \<Rightarrow> env \<Rightarrow> int \<Rightarrow> ChannelISO15765 \<Rightarrow> PASSTHRU_MSG list \<Rightarrow> PASSTHRU_MSG \<Rightarrow> io
     \<Rightarrow> ctl \<times> ChannelISO15765 \<times> PASSTHRU_MSG list \<times> PASSTHRU_MSG \<times> io" where
  "readMsgs_body K E deadline ch pMsg readMsg_buf w =
     (let (now, w) = steady_clock_now E w;
          timeout = remaining deadline now
      in if timeout \<le> 0 then (GotoEnd, ch, pMsg, readMsg_buf, w)
         else
           (let ((c, readMsg_buf), w) = mChannel_readMsgs E w readMsg_buf
            in if c \<noteq> 1 then (GotoEnd, ch, pMsg, readMsg_buf, w)
               else
                 (let (now, w) = steady_clock_now E w;
                      timeout = remaining deadline now
                  in case getTransferByPattern ch readMsg_buf of
                       Some k \<Rightarrow>
                         (let (ok, out_msg, t, w) =
                                readMsg K E (mConfiguration ch) w (mTransfer (mMessageFilters ch ! k)) readMsg_buf;
                              ch = set_transfer ch k t;
                              pMsg = (case out_msg of None \<Rightarrow> pMsg | Some m \<Rightarrow> pMsg[0 := m])
                          in if ok then (Break, ch, pMsg, readMsg_buf, w)
                             else (Continue, ch, pMsg, readMsg_buf, w))
                     | None \<Rightarrow> (Continue, ch, pMsg, readMsg_buf, w))))"

text \<open>
  The two loops of \<open>readMsgs\<close>. The inner loop has no bound of its own, so the model
  counts the passes through its body: \<open>None\<close> when \<open>fuel\<close> passes were not enough.
\<close>

fun readMsgs_loop ::
  "nat \<Rightarrow> j2534_h \<Rightarrow> env \<Rightarrow> int \<Rightarrow> ulong \<Rightarrow> ulong \<Rightarrow> ulong
     \<Rightarrow> ChannelISO15765 \<Rightarrow> PASSTHRU_MSG list \<Rightarrow> PASSTHRU_MSG \<Rightarrow> io
     \<Rightarrow> (ulong \<times> ChannelISO15765 \<times> PASSTHRU_MSG list \<times> io) option" where
  "readMsgs_loop 0 K E deadline pNumMsgs i count ch pMsg readMsg_buf w = None"
| "readMsgs_loop (Suc fuel) K E deadline pNumMsgs i count ch pMsg readMsg_buf w =
     (if i < pNumMsgs then
        (case readMsgs_body K E deadline ch pMsg readMsg_buf w of
           (GotoEnd, ch, pMsg, readMsg_buf, w) \<Rightarrow> Some (count, ch, pMsg, w)
         | (Break, ch, pMsg, readMsg_buf, w) \<Rightarrow>
             readMsgs_loop fuel K E deadline pNumMsgs (i + 1) (count + 1) ch pMsg readMsg_buf w
         | (Continue, ch, pMsg, readMsg_buf, w) \<Rightarrow>
             readMsgs_loop fuel K E deadline pNumMsgs i count ch pMsg readMsg_buf w)
      else Some (count, ch, pMsg, w))"

text \<open>
  \<open>readMsgs\<close>: the result is the value stored into \<open>*pNumMsgs\<close>, the channel, the caller's
  array and the world.
\<close>

definition readMsgs ::
  "nat \<Rightarrow> j2534_h \<Rightarrow> env \<Rightarrow> io \<Rightarrow> ChannelISO15765 \<Rightarrow> PASSTHRU_MSG list \<Rightarrow> ulong \<Rightarrow> ulong
     \<Rightarrow> (ulong \<times> ChannelISO15765 \<times> PASSTHRU_MSG list \<times> io) option" where
  "readMsgs fuel K E w ch pMsg pNumMsgs timeout =
     (let count = 0;
          (now, w) = steady_clock_now E w;
          deadline = now + uint timeout
      in readMsgs_loop fuel K E deadline pNumMsgs 0 count ch pMsg (uninit E) w)"

definition clearTxBuffers :: "ChannelISO15765 \<Rightarrow> bool \<times> ChannelISO15765" where
  "clearTxBuffers ch = (False, ch)"

definition clearRxBuffers :: "ChannelISO15765 \<Rightarrow> bool \<times> ChannelISO15765" where
  "clearRxBuffers ch = (False, ch)"

definition clearPeriodicMessages :: "ChannelISO15765 \<Rightarrow> bool \<times> ChannelISO15765" where
  "clearPeriodicMessages ch = (False, ch)"

definition clearMessageFilters :: "ChannelISO15765 \<Rightarrow> bool \<times> ChannelISO15765" where
  "clearMessageFilters ch = (False, ch\<lparr>mMessageFilters := []\<rparr>)"

section \<open>Concrete inputs\<close>

text \<open>A message holding the given bytes, and a transfer at rest with the given identifiers.\<close>

definition bytes_msg :: "ulong \<Rightarrow> u8 list \<Rightarrow> PASSTHRU_MSG" where
  "bytes_msg flags bs =
     \<lparr>ProtocolID = 6, RxStatus = 0, TxFlags = flags, Timestamp = 0,
      DataSize = of_nat (length bs), ExtraDataIndex = 0,
      Data = (\<lambda>i. if i < length bs then bs ! i else 0)\<rparr>"

definition idle_transfer :: "u32 \<Rightarrow> u32 \<Rightarrow> u32 \<Rightarrow> ISO15765Transfer" where
  "idle_transfer msk pattern fc =
     \<lparr>mMaskPid = msk, mPatternPid = pattern, mFlowControlPid = fc,
      mState = START_STATE, mOffset = 0, mSequence = 0, mBs = 0, mStmin = 0,
      mMessage = bytes_msg 0 []\<rparr>"

text \<open>What the wrapped channel was asked to write, frame by frame.\<close>

fun written :: "event list \<Rightarrow> PASSTHRU_MSG list" where
  "written [] = []"
| "written (Wr m c # es) = m # written es"
| "written (Rd c m # es) = written es"

text \<open>
  How the written frames are paced by the reads: the number of frames written before the
  first read of the wrapped channel, between each read and the next, and after the last.
\<close>

fun blocks_step :: "nat list \<Rightarrow> event \<Rightarrow> nat list" where
  "blocks_step bl (Rd c m) = bl @ [0]"
| "blocks_step bl (Wr m c) = butlast bl @ [Suc (last bl)]"

definition blocks :: "event list \<Rightarrow> nat list" where
  "blocks es = foldl blocks_step [0] es"

text \<open>
  Every block that follows a read holds at most \<open>n\<close> frames, and exactly \<open>n\<close> frames when
  another read follows it.
\<close>

definition paced :: "nat \<Rightarrow> nat list \<Rightarrow> bool" where
  "paced n bl \<longleftrightarrow>
     (\<forall>i. 0 < i \<and> i < length bl \<longrightarrow> bl ! i \<le> n \<and> (Suc i < length bl \<longrightarrow> bl ! i = n))"

text \<open>
  A world in which a call of \<open>writeMsg\<close> on the transfer \<open>t\<close> with the deadline \<open>dl\<close> meets no
  obstacle: time is left at every reading of the clock, the wrapped channel reports every
  frame as written, and every read of the wrapped channel delivers one frame that passes
  the checks of the flow control state: at least 4 bytes, the identifier of the pattern of
  \<open>t\<close> under its mask, and the kind Flow Control.
\<close>

definition obliging :: "env \<Rightarrow> int \<Rightarrow> ISO15765Transfer \<Rightarrow> bool" where
  "obliging E dl t \<longleftrightarrow>
     (\<forall>n. remaining dl (now_at E n) \<noteq> 0) \<and> (\<forall>n. wr_count E n = 1)
     \<and> (\<forall>n buf. fst (rd_reply E n buf) = 1 \<and> 4 \<le> DataSize (snd (rd_reply E n buf))
          \<and> data2pid (Data (snd (rd_reply E n buf))) AND mMaskPid t = mPatternPid t
          \<and> getFrameName (Data (snd (rd_reply E n buf)) 4) = FlowControl)"

text \<open>
  A world whose clock stands at 0 for the first two readings and at 1000 from then on, and
  whose channel accepts every frame and delivers none.
\<close>

definition late_env :: env where
  "late_env = \<lparr>now_at = (\<lambda>k. if k < 2 then 0 else 1000), wr_count = (\<lambda>k. 1),
     rd_reply = (\<lambda>k buf. (0, buf)), uninit = bytes_msg 0 []\<rparr>"


text \<open>
  A world whose clock stands still and whose channel delivers two single frames for the
  identifier \<open>0x7E8\<close>, with payloads \<open>AA BB\<close> and \<open>CC\<close>, and nothing after them.
\<close>

definition two_frames_env :: env where
  "two_frames_env = \<lparr>now_at = (\<lambda>k. 0), wr_count = (\<lambda>k. 1),
     rd_reply = (\<lambda>k buf. if k = 0 then (1, bytes_msg 0 [0, 0, 0x07, 0xE8, 0x02, 0xAA, 0xBB])
                          else if k = 1 then (1, bytes_msg 0 [0, 0, 0x07, 0xE8, 0x01, 0xCC])
                          else (0, buf)),
     uninit = bytes_msg 0 []\<rparr>"

text \<open>
  A world whose clock stands still, and whose channel accepts every frame and answers
  every read with a Flow Control frame for the identifier \<open>0x7E8\<close>, with the given block
  size and a separation time of 0.
\<close>

definition fc_env :: "u8 \<Rightarrow> env" where
  "fc_env bs = \<lparr>now_at = (\<lambda>k. 0), wr_count = (\<lambda>k. 1),
     rd_reply = (\<lambda>k buf. (1, bytes_msg 0 [0, 0, 0x07, 0xE8, 0x30, bs, 0, 0, 0, 0, 0, 0])),
     uninit = bytes_msg 0 []\<rparr>"


text \<open>A message of 30 payload bytes \<open>55 55 ... 55\<close> for the identifier \<open>0x7E0\<close>.\<close>

definition msg30 :: PASSTHRU_MSG where
  "msg30 = bytes_msg 0 ([0, 0, 0x07, 0xE0] @ replicate 30 0x55)"

text \<open>
  A transfer as the constructor leaves it, and the First Frame of a message of 10 payload
  bytes for the identifier \<open>0x7E8\<close> (scenario S3 of the specification).
\<close>

definition fresh_transfer :: ISO15765Transfer where
  "fresh_transfer = ISO15765Transfer_ctor (idle_transfer 0 0 0)
      (bytes_msg 0 [0, 0, 0x07, 0xFF]) (bytes_msg 0 [0, 0, 0x07, 0xE8]) (bytes_msg 0 [0, 0, 0x07, 0xE0])"

definition first_frame10 :: PASSTHRU_MSG where
  "first_frame10 = bytes_msg 0 [0, 0, 0x07, 0xE8, 0x10, 0x0A, 0x00, 0x01, 0x02, 0x03, 0x04, 0x05]"

definition one_filter_channel :: ChannelISO15765 where
  "one_filter_channel =
     \<lparr>mMessageFilters = [\<lparr>mMessageFilter = 0, mTransfer = idle_transfer 0x7FF 0x7E8 0x7E0\<rparr>],
      mConfiguration = Map.empty\<rparr>"

section \<open>The transfers that can arise\<close>

text \<open>
  Modelled from the spec: the capacity of the data buffer of \<open>PASSTHRU_MSG\<close>, declared in
  \<open>j2534.h\<close> (not under \<open>src/\<close>): a fixed-capacity buffer of about 4 KiB, 4128 bytes in
  that header. A message is well formed when its data size does not exceed it; on any
  other message the C++ reads or writes outside the buffer.
\<close>

definition fits :: "PASSTHRU_MSG \<Rightarrow> bool" where
  "fits m \<longleftrightarrow> DataSize m \<le> 4128"

text \<open>
  A transfer is reachable when it comes out of the constructor, or out of a call of
  \<open>clear\<close>, \<open>writeMsg\<close> or \<open>readMsg\<close> on a reachable transfer, whatever the arguments, the
  configuration and the world, as long as the messages written and the frames that the
  wrapped channel delivers are well formed. A call of \<open>writeMsg\<close> that throws counts as
  well.
\<close>

inductive reachable :: "j2534_h \<Rightarrow> ISO15765Transfer \<Rightarrow> bool" for K :: j2534_h where
  ctor: "reachable K (ISO15765Transfer_ctor raw pMaskMsg pPatternMsg pFlowControlMsg)"
| clear: "reachable K t \<Longrightarrow> reachable K (clear t)"
| writeMsg: "reachable K t \<Longrightarrow> fits msg \<Longrightarrow> (\<forall>k buf. fits (snd (rd_reply E k buf))) \<Longrightarrow>
     writeMsg K E w t msg timeout = (r, t', w') \<Longrightarrow> reachable K t'"
| readMsg: "reachable K t \<Longrightarrow> readMsg K E cfg w t in_msg = (ok, out_msg, t', w') \<Longrightarrow> reachable K t'"

text \<open>What holds of every reachable transfer: it is at rest, or well inside its buffers.\<close>

definition transfer_inv :: "ISO15765Transfer \<Rightarrow> bool" where
  "transfer_inv t \<longleftrightarrow>
     is_reset t \<or>
     (mState t \<noteq> START_STATE \<and> 4 \<le> mOffset t \<and> mOffset t \<le> 4128 \<and> DataSize (mMessage t) \<le> 4128)"

section \<open>Properties\<close>

subsection \<open>Words, nibbles and frames\<close>







subsection \<open>One pass of the loop of writeMsg, and a rule for the loop\<close>

lemma writeMsg_body_InrE:
  assumes "writeMsg_body K E dl msg t w = Inr (t', w')"
  obtains
    (start) "mState t = START_STATE" "wr_count E (nwr w) = 1"
      "remaining dl (now_at E (tick w)) \<noteq> 0"
      "t' = (writeMsg_start_fill K msg t)\<lparr>mState := FLOW_CONTROL_STATE\<rparr>"
      "w' = w\<lparr>tick := Suc (tick w), nwr := Suc (nwr w),
               trace := trace w @ [Wr (mMessage (writeMsg_start_fill K msg t)) 1]\<rparr>"
  | (fc) m where "mState t = FLOW_CONTROL_STATE" "rd_reply E (nrd w) (mMessage t) = (1, m)"
      "remaining dl (now_at E (tick w)) \<noteq> 0" "getFrameName (Data m 4) = FlowControl"
      "t' = t\<lparr>mMessage := m, mBs := ucast (Data m 5), mStmin := ucast (Data m 6), mState := BLOCK_STATE\<rparr>"
      "w' = w\<lparr>tick := Suc (tick w), nrd := Suc (nrd w), trace := trace w @ [Rd 1 m]\<rparr>"
  | (block) "mState t = BLOCK_STATE" "wr_count E (nwr w) = 1"
      "remaining dl (now_at E (tick w)) \<noteq> 0"
      "t' = (let t1 = (writeMsg_block_fill K msg t)\<lparr>mBs := mBs t - 1\<rparr>
             in if mBs t - 1 = 0 then t1\<lparr>mState := FLOW_CONTROL_STATE\<rparr> else t1)"
      "w' = w\<lparr>tick := Suc (tick w), nwr := Suc (nwr w),
               trace := trace w @ [Wr (mMessage (writeMsg_block_fill K msg t)) 1]\<rparr>"
proof (cases "mState t")
  case START_STATE
  with assms show ?thesis
    by (intro start) (auto simp: writeMsg_body_def writeMsg_start_def steady_clock_now_def
        mChannel_writeMsgs_def Let_def split: if_splits)
next
  case FLOW_CONTROL_STATE
  with assms show ?thesis
    by (intro fc [of "snd (rd_reply E (nrd w) (mMessage t))"])
       (auto simp: writeMsg_body_def writeMsg_flow_control_def steady_clock_now_def
        mChannel_readMsgs_def Let_def split: if_splits prod.splits)
next
  case BLOCK_STATE
  with assms show ?thesis
    by (intro block) (auto simp: writeMsg_body_def writeMsg_block_def steady_clock_now_def
        mChannel_writeMsgs_def Let_def writeMsg_block_fill_fields split: if_splits)
qed

lemma writeMsg_body_InlE:
  assumes "writeMsg_body K E dl msg t w = Inl (r, t', w')"
  obtains
    (timeout) "remaining dl (now_at E (tick w)) = 0" "\<not> r" "t' = t" "w' = w\<lparr>tick := Suc (tick w)\<rparr>"
  | (start) "mState t = START_STATE" "wr_count E (nwr w) \<noteq> 1" "\<not> r"
      "remaining dl (now_at E (tick w)) \<noteq> 0"
      "t' = clear (writeMsg_start_fill K msg t)"
      "w' = w\<lparr>tick := Suc (tick w), nwr := Suc (nwr w),
               trace := trace w @ [Wr (mMessage (writeMsg_start_fill K msg t)) (wr_count E (nwr w))]\<rparr>"
  | (fc) c m where "mState t = FLOW_CONTROL_STATE" "rd_reply E (nrd w) (mMessage t) = (c, m)" "\<not> r"
      "remaining dl (now_at E (tick w)) \<noteq> 0"
      "t' = clear (t\<lparr>mMessage := m\<rparr>)"
      "w' = w\<lparr>tick := Suc (tick w), nrd := Suc (nrd w), trace := trace w @ [Rd c m]\<rparr>"
  | (block) "mState t = BLOCK_STATE" "wr_count E (nwr w) \<noteq> 1" "\<not> r"
      "remaining dl (now_at E (tick w)) \<noteq> 0"
      "t' = clear (writeMsg_block_fill K msg t)"
      "w' = w\<lparr>tick := Suc (tick w), nwr := Suc (nwr w),
               trace := trace w @ [Wr (mMessage (writeMsg_block_fill K msg t)) (wr_count E (nwr w))]\<rparr>"
proof (cases "remaining dl (now_at E (tick w)) = 0")
  case True
  with assms show ?thesis
    by (intro timeout) (auto simp: writeMsg_body_def steady_clock_now_def Let_def)
next
  case False
  show ?thesis
  proof (cases "mState t")
    case START_STATE
    with assms False show ?thesis
      by (intro start) (auto simp: writeMsg_body_def writeMsg_start_def steady_clock_now_def
          mChannel_writeMsgs_def Let_def split: if_splits)
  next
    case FLOW_CONTROL_STATE
    with assms False show ?thesis
      by (intro fc [of "fst (rd_reply E (nrd w) (mMessage t))" "snd (rd_reply E (nrd w) (mMessage t))"])
         (auto simp: writeMsg_body_def writeMsg_flow_control_def steady_clock_now_def
          mChannel_readMsgs_def Let_def split: if_splits prod.splits)
  next
    case BLOCK_STATE
    with assms False show ?thesis
      by (intro block) (auto simp: writeMsg_body_def writeMsg_block_def steady_clock_now_def
          mChannel_writeMsgs_def Let_def split: if_splits)
  qed
qed

text \<open>A rule for the loop: an invariant of the passes, and what holds of each way out.\<close>

lemma writeMsg_loop_rule:
  assumes init: "I t w"
    and step: "\<And>t w t' w'. I t w \<Longrightarrow> mOffset t < DataSize msg \<Longrightarrow>
                 writeMsg_body K E dl msg t w = Inr (t', w') \<Longrightarrow> I t' w'"
    and fail: "\<And>t w r. I t w \<Longrightarrow> mOffset t < DataSize msg \<Longrightarrow>
                 writeMsg_body K E dl msg t w = Inl r \<Longrightarrow> Q r"
    and finish: "\<And>t w. I t w \<Longrightarrow> \<not> mOffset t < DataSize msg \<Longrightarrow> Q (True, clear t, w)"
  shows "Q (writeMsg_loop K E dl msg t w)"
  using assms
proof (induction K E dl msg t w rule: writeMsg_loop.induct)
  case (1 K E deadline msg t w)
  note init = "1.prems"(1) and step = "1.prems"(2) and fail = "1.prems"(3) and finish = "1.prems"(4)
  show ?case
  proof (cases "mOffset t < DataSize msg")
    case False
    have "writeMsg_loop K E deadline msg t w = (True, clear t, w)"
      by (subst writeMsg_loop.simps) (simp add: False)
    then show ?thesis using finish [OF init False] by simp
  next
    case True
    show ?thesis
    proof (cases "writeMsg_body K E deadline msg t w")
      case (Inl r)
      have "writeMsg_loop K E deadline msg t w = r"
        by (subst writeMsg_loop.simps) (simp add: True Inl)
      then show ?thesis using fail [OF init True Inl] by simp
    next
      case (Inr p)
      obtain t' w' where p: "p = (t', w')" by (cases p)
      have eq: "writeMsg_loop K E deadline msg t w = writeMsg_loop K E deadline msg t' w'"
        by (subst writeMsg_loop.simps) (simp add: True Inr p)
      have "I t' w'" using step [OF init True] Inr p by simp
      then have "Q (writeMsg_loop K E deadline msg t' w')"
        using "1.IH" [OF True Inr [unfolded p] refl] step fail finish by blast
      then show ?thesis using eq by simp
    qed
  qed
qed

lemma writeMsg_start_body:
  assumes "mState t = START_STATE"
  shows "writeMsg_body K E dl msg t w =
      (if remaining dl (now_at E (tick w)) = 0 then Inl (False, t, w\<lparr>tick := Suc (tick w)\<rparr>)
       else if wr_count E (nwr w) \<noteq> 1
         then Inl (False, clear (writeMsg_start_fill K msg t),
                w\<lparr>tick := Suc (tick w), nwr := Suc (nwr w),
                  trace := trace w @ [Wr (mMessage (writeMsg_start_fill K msg t)) (wr_count E (nwr w))]\<rparr>)
       else Inr ((writeMsg_start_fill K msg t)\<lparr>mState := FLOW_CONTROL_STATE\<rparr>,
                w\<lparr>tick := Suc (tick w), nwr := Suc (nwr w),
                  trace := trace w @ [Wr (mMessage (writeMsg_start_fill K msg t)) (wr_count E (nwr w))]\<rparr>))"
  by (simp add: writeMsg_body_def writeMsg_start_def steady_clock_now_def mChannel_writeMsgs_def assms Let_def)

subsection \<open>The frames that writeMsg builds\<close>

lemma mask4_32: "(0x0F :: ulong) = mask 4" by (simp add: mask_eq_exp_minus_1)

lemma sf_size:
  assumes "4 \<le> DataSize msg" "DataSize msg \<le> 11"
  shows "getRemainingSize msg 4 = DataSize msg - 4" "\<not> (7 < DataSize msg - 4)" "0 < DataSize msg"
    "unat (DataSize msg - 4) = unat (DataSize msg) - 4" "4 \<le> unat (DataSize msg)" "unat (DataSize msg) \<le> 11"
    "unat (1 + DataSize msg) = Suc (unat (DataSize msg))"
    "(DataSize msg - 4) AND 0x0F = DataSize msg - 4"
proof -
  show u4: "4 \<le> unat (DataSize msg)" and u11: "unat (DataSize msg) \<le> 11"
    using assms by (simp_all add: word_le_nat_alt)
  show us: "unat (DataSize msg - 4) = unat (DataSize msg) - 4"
    using assms(1) by (simp add: unat_sub)
  show n7: "\<not> (7 < DataSize msg - 4)"
    using us u11 by (simp add: word_less_nat_alt)
  then show "getRemainingSize msg 4 = DataSize msg - 4"
    by (simp add: getRemainingSize_def Let_def)
  show "0 < DataSize msg"
    using u4 by (simp add: word_less_nat_alt)
  show "unat (1 + DataSize msg) = Suc (unat (DataSize msg))"
    using u11 by (simp add: unat_word_ariths)
  have "DataSize msg - 4 < 2 ^ 4"
    using us u11 by (simp add: word_less_nat_alt)
  then show "(DataSize msg - 4) AND 0x0F = DataSize msg - 4"
    unfolding mask4_32 by (rule less_mask_eq)
qed

lemma start_fill_single_fields:
  assumes "4 \<le> DataSize msg" "DataSize msg \<le> 11"
  shows "mOffset (writeMsg_start_fill K msg t) = DataSize msg"
    "mSequence (writeMsg_start_fill K msg t) = mSequence t"
    "mState (writeMsg_start_fill K msg t) = mState t"
    "mBs (writeMsg_start_fill K msg t) = mBs t"
    "mStmin (writeMsg_start_fill K msg t) = mStmin t"
    "DataSize (mMessage (writeMsg_start_fill K msg t)) =
       (if TxFlags msg AND ISO15765_FRAME_PAD K \<noteq> 0 then 12 else DataSize msg + 1)"
  by (simp_all add: writeMsg_start_fill_def Let_def sf_size [OF assms] paddingMessage_def)




lemma ff_size:
  assumes "12 \<le> DataSize msg"
  shows "getRemainingSize msg 4 = 7" "7 < DataSize msg - 4" "0 < DataSize msg" "10 < DataSize msg"
    "unat (DataSize msg - 4) = unat (DataSize msg) - 4" "12 \<le> unat (DataSize msg)" "4 \<le> DataSize msg"
proof -
  show u12: "12 \<le> unat (DataSize msg)"
    using assms by (simp add: word_le_nat_alt)
  show lo4: "4 \<le> DataSize msg"
    using u12 by (simp add: word_le_nat_alt)
  show us: "unat (DataSize msg - 4) = unat (DataSize msg) - 4"
    using lo4 by (simp add: unat_sub)
  show g7: "7 < DataSize msg - 4"
    using us u12 by (simp add: word_less_nat_alt)
  then show "getRemainingSize msg 4 = 7"
    by (simp add: getRemainingSize_def Let_def)
  show "0 < DataSize msg" "10 < DataSize msg"
    using u12 by (simp_all add: word_less_nat_alt)
qed

lemma start_fill_first_fields:
  assumes "12 \<le> DataSize msg"
  shows "mOffset (writeMsg_start_fill K msg t) = 10"
    "mSequence (writeMsg_start_fill K msg t) = mSequence t + 1"
    "mState (writeMsg_start_fill K msg t) = mState t"
    "mBs (writeMsg_start_fill K msg t) = mBs t"
    "mStmin (writeMsg_start_fill K msg t) = mStmin t"
    "DataSize (mMessage (writeMsg_start_fill K msg t)) = 12"
  by (simp_all add: writeMsg_start_fill_def Let_def ff_size [OF assms] paddingMessage_def)



lemma written_append: "written (xs @ ys) = written xs @ written ys"
  by (induction xs rule: written.induct) simp_all




text \<open>The first pass of writeMsg on a transfer at rest.\<close>

lemma writeMsg_first_pass:
  assumes rst: "is_reset t" and lo: "4 \<le> DataSize msg"
  shows "writeMsg K E w t msg timeout =
      (let dl = now_at E (tick w) + uint timeout;
           t1 = writeMsg_start_fill K msg t;
           c = wr_count E (nwr w);
           w3 = w\<lparr>tick := Suc (Suc (tick w)), nwr := Suc (nwr w), trace := trace w @ [Wr (mMessage t1) c]\<rparr>
       in if remaining dl (now_at E (Suc (tick w))) = 0
          then (Inr False, t, w\<lparr>tick := Suc (Suc (tick w))\<rparr>)
          else if c \<noteq> 1 then (Inr False, clear t1, w3)
          else (case writeMsg_loop K E dl msg (t1\<lparr>mState := FLOW_CONTROL_STATE\<rparr>) w3 of
                  (r, t', w') \<Rightarrow> (Inr r, t', w')))"
proof -
  have st: "mState t = START_STATE" "mOffset t = 0" using rst by (simp_all add: is_reset_def)
  have pos: "0 < DataSize msg" using lo by (simp add: word_less_nat_alt word_le_nat_alt)
  have nl: "\<not> DataSize msg < 4" using lo by (simp add: not_less)
  have loop: "writeMsg_loop K E dl msg t w1 =
      (case writeMsg_body K E dl msg t w1 of Inl r \<Rightarrow> r
       | Inr (t', w') \<Rightarrow> writeMsg_loop K E dl msg t' w')" for dl w1
    by (subst writeMsg_loop.simps) (simp add: st pos)
  show ?thesis
    unfolding writeMsg_def
    by (simp add: steady_clock_now_def Let_def nl st loop writeMsg_start_body [OF st(1)])
qed

subsection \<open>Protocol id translation in connect\<close>

lemma dec_changes_low13: "((x::ulong) - 1) AND 0x1FFF \<noteq> x AND 0x1FFF"
proof
  assume "(x - 1) AND 0x1FFF = x AND 0x1FFF"
  then have "odd ((x - 1) AND 0x1FFF) = odd (x AND 0x1FFF)" by simp
  then show False by (simp add: even_and_iff)
qed

text \<open>
  Whatever the protocol id, the second test of \<open>connect\<close> looks at the id after the
  decrement, so it never holds when the first one did: the channel handed back is the
  wrapped device's own.
\<close>

lemma connect_never_wraps:
  "connect K mDevice_connect p flags baudRate =
     (let p' = (if p AND 0x1FFF = ISO15765 K then p - 1 else p)
      in (p', Plain (mDevice_connect p' flags baudRate)))"
  using dec_changes_low13 [of p] by (auto simp: connect_def Let_def)

text \<open>
  C1. A connect call whose protocol id has low 13 bits equal to \<open>ISO15765\<close> is to delegate
  with the CAN protocol id (one less) and hand back the channel wrapped in a
  \<open>ChannelISO15765\<close>. At the protocol id \<open>ISO15765 = 6\<close> the code delegates with 5, and
  hands back the wrapped device's channel as it is, not a \<open>ChannelISO15765\<close>.
\<close>

theorem connect_ISO15765_not_wrapped:
  "connect j2534_std mDevice_connect 6 flags baudRate = (5, Plain (mDevice_connect 5 flags baudRate))"
  by (simp add: connect_def j2534_std_def)

subsection \<open>Packing and unpacking the CAN identifier\<close>

lemma mask29: "(0x1FFFFFFF :: u32) = mask 29" by (simp add: mask_eq_exp_minus_1)
lemma mask5_32: "(0x1F :: u32) = mask 5" by (simp add: mask_eq_exp_minus_1)
lemma mask8_32: "(0xFF :: u32) = mask 8" by (simp add: mask_eq_exp_minus_1)
lemma mask5_8: "(0x1F :: u8) = mask 5" by (simp add: mask_eq_exp_minus_1)
lemma mask8_8: "(0xFF :: u8) = mask 8" by (simp add: mask_eq_exp_minus_1)

lemma byte_ranges:
  "(n < 8 \<Longrightarrow> P) \<Longrightarrow> (8 \<le> n \<Longrightarrow> n < 16 \<Longrightarrow> P) \<Longrightarrow> (16 \<le> n \<Longrightarrow> n < 24 \<Longrightarrow> P)
     \<Longrightarrow> (24 \<le> (n::nat) \<Longrightarrow> P) \<Longrightarrow> P"
  by linarith

lemma data2pid_pid2Data: "data2pid (pid2Data pid d) = pid AND 0x1FFFFFFF"
  unfolding data2pid_def pid2Data_def Let_def mask29 mask5_32 mask8_32 mask5_8 mask8_8
  apply (rule bit_word_eqI)
  subgoal for n
    by (rule byte_ranges [of n]) (auto simp: bit_simps)
  done

lemma pid2Data_byte0: "unat (pid2Data pid d 0) = unat pid div 2 ^ 24 mod 2 ^ 5"
  unfolding pid2Data_def mask5_32
  by (simp add: and.commute [of "mask 5"] unsigned_ucast_eq unsigned_drop_bit_eq
      unsigned_take_bit_eq drop_bit_eq_div take_bit_eq_mod unat_div unat_mod flip: take_bit_eq_mask)

lemma pid2Data_byte1: "unat (pid2Data pid d 1) = unat pid div 2 ^ 16 mod 2 ^ 8"
  unfolding pid2Data_def mask8_32
  by (simp add: and.commute [of "mask 8"] unsigned_ucast_eq unsigned_drop_bit_eq
      unsigned_take_bit_eq drop_bit_eq_div take_bit_eq_mod unat_div unat_mod flip: take_bit_eq_mask)

lemma pid2Data_byte2: "unat (pid2Data pid d 2) = unat pid div 2 ^ 8 mod 2 ^ 8"
  unfolding pid2Data_def mask8_32
  by (simp add: and.commute [of "mask 8"] unsigned_ucast_eq unsigned_drop_bit_eq
      unsigned_take_bit_eq drop_bit_eq_div take_bit_eq_mod unat_div unat_mod flip: take_bit_eq_mask)

lemma pid2Data_byte3: "unat (pid2Data pid d 3) = unat pid mod 2 ^ 8"
  unfolding pid2Data_def mask8_32
  by (simp add: and.commute [of "mask 8"] unsigned_ucast_eq unsigned_drop_bit_eq
      unsigned_take_bit_eq drop_bit_eq_div take_bit_eq_mod unat_div unat_mod flip: take_bit_eq_mask)

text \<open>
  C7. For every 32-bit \<open>pid\<close>, unpacking the four bytes that packing produced gives
  \<open>pid AND 0x1FFFFFFF\<close>; byte 0 is \<open>(pid >> 24) AND 0x1F\<close> and bytes 1 to 3 are the next
  octets of \<open>pid\<close>, most significant first.
\<close>

theorem pid_pack_unpack:
  "data2pid (pid2Data pid d) = pid AND 0x1FFFFFFF
   \<and> unat (pid2Data pid d 0) = unat pid div 2 ^ 24 mod 2 ^ 5
   \<and> unat (pid2Data pid d 1) = unat pid div 2 ^ 16 mod 2 ^ 8
   \<and> unat (pid2Data pid d 2) = unat pid div 2 ^ 8 mod 2 ^ 8
   \<and> unat (pid2Data pid d 3) = unat pid mod 2 ^ 8"
  using data2pid_pid2Data pid2Data_byte0 pid2Data_byte1 pid2Data_byte2 pid2Data_byte3
  by blast

subsection \<open>The clear operations of the channel\<close>

text \<open>
  C10. \<open>clearMessageFilters\<close> empties the registry of every channel, and returns \<open>false\<close>,
  the value that \<open>clearTxBuffers\<close>, \<open>clearRxBuffers\<close> and \<open>clearPeriodicMessages\<close> return
  without doing anything.
\<close>

theorem clearMessageFilters_empties_and_returns_false:
  "mMessageFilters (snd (clearMessageFilters ch)) = []
   \<and> fst (clearMessageFilters ch) = False
   \<and> clearTxBuffers ch = (False, ch)
   \<and> clearRxBuffers ch = (False, ch)
   \<and> clearPeriodicMessages ch = (False, ch)"
  by (simp add: clearMessageFilters_def clearTxBuffers_def clearRxBuffers_def clearPeriodicMessages_def)

subsection \<open>Failure of writeMsg at the deadline\<close>

text \<open>
  C3. Whenever \<open>writeMsg\<close> or \<open>readMsg\<close> returns failure, the transfer is to be reset. A
  message of 8 payload bytes is written with a timeout of 1000 ms; the First Frame goes
  out, and at the next reading of the clock no time is left. \<open>writeMsg\<close> returns \<open>false\<close>,
  and the transfer stays in \<open>FLOW_CONTROL_STATE\<close> with \<open>mOffset = 10\<close> and \<open>mSequence = 1\<close>.
\<close>

theorem writeMsg_deadline_not_reset:
  "(case writeMsg j2534_std late_env io0 (idle_transfer 0x7FF 0x7E8 0x7E0)
           (bytes_msg 0 [0, 0, 0x07, 0xE0, 1, 2, 3, 4, 5, 6, 7, 8]) 1000 of
      (r, t, w) \<Rightarrow> (r, mState t, mOffset t, mSequence t, map frame_bytes (written (trace w))))
   = (Inr False, FLOW_CONTROL_STATE, 10, 1, [[0, 0, 0x07, 0xE0, 0x10, 8, 1, 2, 3, 4, 5, 6]])"
  by (simp add: writeMsg_def writeMsg_loop.simps writeMsg_body_def writeMsg_start_def writeMsg_start_fill_def
      late_env_def io0_def
      idle_transfer_def bytes_msg_def j2534_std_def steady_clock_now_def remaining_def
      mChannel_writeMsgs_def getRemainingSize_def prepareSentMessageHeaders_def memcpy_def
      frame_bytes_def Let_def upt_rec)

subsection \<open>The output slots of readMsgs\<close>

lemma readMsgs_loop_unfold:
  "readMsgs_loop fuel K E deadline pNumMsgs i count ch pMsg readMsg_buf w =
     (if fuel = 0 then None
      else if i < pNumMsgs then
        (case readMsgs_body K E deadline ch pMsg readMsg_buf w of
           (GotoEnd, ch, pMsg, readMsg_buf, w) \<Rightarrow> Some (count, ch, pMsg, w)
         | (Break, ch, pMsg, readMsg_buf, w) \<Rightarrow>
             readMsgs_loop (fuel - 1) K E deadline pNumMsgs (i + 1) (count + 1) ch pMsg readMsg_buf w
         | (Continue, ch, pMsg, readMsg_buf, w) \<Rightarrow>
             readMsgs_loop (fuel - 1) K E deadline pNumMsgs i count ch pMsg readMsg_buf w)
      else Some (count, ch, pMsg, w))"
  by (cases fuel) (simp_all split: prod.splits ctl.splits)

text \<open>
  C2. The i-th message completed by \<open>readMsgs\<close> is to go into the i-th slot of the
  caller's array, and the count is to be the number of slots filled. With a batch of two
  slots and two single frames on the bus (payloads \<open>AA BB\<close>, then \<open>CC\<close>), the code reports
  2 messages; the first slot holds the second message, and the second slot is as the
  caller left it (here: empty).
\<close>

theorem readMsgs_overwrites_first_slot:
  "map_option (\<lambda>(count, ch, pMsg, w). (count, map frame_bytes pMsg))
     (readMsgs 5 j2534_std two_frames_env io0 one_filter_channel
        [bytes_msg 0 [], bytes_msg 0 []] 2 1000)
   = Some (2, [[0, 0, 0x07, 0xE8, 0xCC], []])"
  by (simp add: readMsgs_def readMsgs_body_def readMsg_def readMsg_exit_def readMsg_finish_def
      two_frames_env_def one_filter_channel_def io0_def idle_transfer_def bytes_msg_def
      j2534_std_def steady_clock_now_def remaining_def mChannel_readMsgs_def
      getTransferByPattern_def set_transfer_def data2pid_def getFrameName_def IS_SF_def
      prepareReceivedMessageHeaders_def memcpy_def clear_def
      frame_bytes_def Let_def upt_rec readMsgs_loop_unfold)

subsection \<open>The InvalidMessage error of writeMsg\<close>

text \<open>
  C9. \<open>writeMsg\<close> throws \<open>ERR_INVALID_MSG\<close> exactly when the data size of the message is
  below 4. When it throws, no call of the wrapped channel has been made (the trace and
  the count of writes are as before) and the transfer is unchanged.
\<close>

theorem writeMsg_invalid_message:
  "(fst (writeMsg K E w t msg timeout) = Inl ERR_INVALID_MSG \<longleftrightarrow> DataSize msg < 4)
   \<and> (DataSize msg < 4 \<longrightarrow>
        fst (snd (writeMsg K E w t msg timeout)) = t
        \<and> trace (snd (snd (writeMsg K E w t msg timeout))) = trace w
        \<and> nwr (snd (snd (writeMsg K E w t msg timeout))) = nwr w
        \<and> nrd (snd (snd (writeMsg K E w t msg timeout))) = nrd w)"
  by (auto simp: writeMsg_def Let_def steady_clock_now_def split: prod.splits)

theorem writeMsg_invalid_message_witness:
  "DataSize (bytes_msg 0 [0, 0, 0x07]) < 4
   \<and> writeMsg j2534_std late_env io0 (idle_transfer 0x7FF 0x7E8 0x7E0) (bytes_msg 0 [0, 0, 0x07]) 1000
       = (Inl ERR_INVALID_MSG, idle_transfer 0x7FF 0x7E8 0x7E0, io0\<lparr>tick := 1\<rparr>)"
proof -
  have small: "DataSize (bytes_msg 0 [0, 0, 0x07]) < 4"
    by (simp add: bytes_msg_def)
  have "fst (writeMsg j2534_std late_env io0 (idle_transfer 0x7FF 0x7E8 0x7E0) (bytes_msg 0 [0, 0, 0x07]) 1000)
          = Inl ERR_INVALID_MSG"
    using writeMsg_invalid_message
      [of j2534_std late_env io0 "idle_transfer 0x7FF 0x7E8 0x7E0" "bytes_msg 0 [0, 0, 0x07]" 1000] small
    by blast
  then show ?thesis
    using small by (simp add: writeMsg_def Let_def steady_clock_now_def io0_def split: prod.splits if_splits)
qed

subsection \<open>Single Frame messages\<close>




subsection \<open>Multi-frame messages\<close>




subsection \<open>Pacing by Flow Control\<close>

lemma blocks_Nil: "blocks [] = [0]"
  by (simp add: blocks_def)

lemma blocks_snoc: "blocks (es @ [e]) = blocks_step (blocks es) e"
  by (simp add: blocks_def)

lemma blocks_one: "blocks [Wr f c] = [1]"
  using blocks_snoc [of "[]" "Wr f c"] by (simp add: blocks_Nil)

lemma blocks_nonempty: "blocks es \<noteq> []"
proof (induction es rule: rev_induct)
  case Nil
  then show ?case by (simp add: blocks_Nil)
next
  case (snoc e es)
  then show ?case by (cases e) (simp_all add: blocks_snoc)
qed

lemma paced_single: "length bl \<le> 1 \<Longrightarrow> paced n bl"
  by (auto simp: paced_def)

lemma paced_Rd:
  assumes "paced n bl" "length bl = 1 \<or> last bl = n" "bl \<noteq> []"
  shows "paced n (bl @ [0])"
  unfolding paced_def
proof (intro allI impI)
  fix i assume i: "0 < i \<and> i < length (bl @ [0])"
  show "(bl @ [0]) ! i \<le> n \<and> (Suc i < length (bl @ [0]) \<longrightarrow> (bl @ [0]) ! i = n)"
  proof (cases "Suc i < length bl")
    case True
    then show ?thesis using assms(1) i by (simp add: paced_def nth_append)
  next
    case False
    show ?thesis
    proof (cases "i = length bl")
      case True
      then show ?thesis by simp
    next
      case False
      then have "i = length bl - 1" "2 \<le> length bl" using i \<open>\<not> Suc i < length bl\<close> by auto
      then show ?thesis using assms(2,3) by (auto simp: nth_append last_conv_nth)
    qed
  qed
qed

lemma paced_Wr:
  assumes "paced n bl" "2 \<le> length bl \<longrightarrow> x \<le> n"
  shows "paced n (butlast bl @ [x])"
  using assms by (auto simp: paced_def nth_append nth_butlast)

lemma ucast_byte_unat: "unat (ucast (k :: u8) :: ulong) = unat k"
  by (simp add: unsigned_ucast_eq take_bit_nat_eq_self unsigned_less [of k, simplified] less_trans [OF unsigned_less [of k]])

lemma ucast_byte_zero: "(ucast (k :: u8) :: ulong) = 0 \<longleftrightarrow> k = 0"
  by (metis ucast_byte_unat unat_eq_zero)

lemma unat_dec: "(b :: ulong) \<noteq> 0 \<Longrightarrow> unat (b - 1) = unat b - 1"
  by (simp add: unat_minus_one)

lemma bs_countdown:
  fixes k :: u8 and x :: nat
  assumes "Suc x < 2 ^ 32"
  shows "(ucast k :: ulong) - of_nat x - 1 = 0 \<longleftrightarrow> Suc x = unat k"
proof -
  have "(ucast k :: ulong) - of_nat x - 1 = 0 \<longleftrightarrow> (ucast k :: ulong) = of_nat (Suc x)"
    by (simp add: algebra_simps)
  also have "\<dots> \<longleftrightarrow> unat (ucast k :: ulong) = unat (of_nat (Suc x) :: ulong)"
    by (simp only: word_unat_eq_iff)
  also have "unat (of_nat (Suc x) :: ulong) = Suc x"
    using assms by (simp only: unat_of_nat) simp
  finally show ?thesis by (auto simp: ucast_byte_unat)
qed

text \<open>In an obliging world no pass of the loop fails.\<close>

lemma writeMsg_body_obliging:
  assumes ob: "obliging E dl t0" and ids: "mMaskPid t = mMaskPid t0" "mPatternPid t = mPatternPid t0"
  shows "writeMsg_body K E dl msg t w \<noteq> Inl res"
proof (cases "mState t")
  case START_STATE
  then show ?thesis using ob
    by (simp add: writeMsg_body_def writeMsg_start_def steady_clock_now_def mChannel_writeMsgs_def
        Let_def obliging_def)
next
  case FLOW_CONTROL_STATE
  have rd: "fst (rd_reply E n buf) = 1" "\<not> DataSize (snd (rd_reply E n buf)) < 4"
      "data2pid (Data (snd (rd_reply E n buf))) AND mMaskPid t = mPatternPid t"
      "getFrameName (Data (snd (rd_reply E n buf)) 4) = FlowControl" for n buf
    using ob ids by (simp_all add: obliging_def not_less)
  show ?thesis using ob FLOW_CONTROL_STATE rd
    by (simp add: writeMsg_body_def writeMsg_flow_control_def steady_clock_now_def mChannel_readMsgs_def
        Let_def obliging_def split_beta)
next
  case BLOCK_STATE
  then show ?thesis using ob
    by (simp add: writeMsg_body_def writeMsg_block_def steady_clock_now_def mChannel_writeMsgs_def
        Let_def obliging_def)
qed

text \<open>The offset after a Consecutive Frame, and the number of frames still to come.\<close>

lemma block_offset_nat:
  assumes "off < DataSize msg"
  shows "unat (off + getRemainingSize msg off) = min (unat off + 7) (unat (DataSize msg))"
proof -
  let ?s = "getRemainingSize msg off"
  let ?D = "DataSize msg"
  have lt: "unat off < unat ?D" using assms by (simp add: word_less_nat_alt)
  have sub: "unat (?D - off) = unat ?D - unat off"
    using lt by (simp add: unat_sub word_le_nat_alt)
  have s: "unat ?s = min 7 (unat ?D - unat off)"
    using sub by (auto simp: getRemainingSize_def Let_def word_less_nat_alt)
  have top: "unat ?D < 2 ^ 32"
    using unsigned_less [of ?D, where 'a = nat] by simp
  have "unat off + unat ?s < 2 ^ 32"
    using s lt top by simp
  then have nowrap: "unat (off + ?s) = unat off + unat ?s"
    by (simp add: unat_add_lem [THEN iffD1])
  show ?thesis unfolding nowrap s using lt by simp
qed

lemma start_fill_ids:
  "mMaskPid (writeMsg_start_fill K msg t) = mMaskPid t"
  "mPatternPid (writeMsg_start_fill K msg t) = mPatternPid t"
  by (simp_all add: writeMsg_start_fill_def Let_def split: prod.splits)

lemma frames_left:
  fixes c D :: nat
  shows "10 + 7 * c < D \<Longrightarrow> c < (D - 4) div 7"
    and "c \<le> (D - 4) div 7 \<Longrightarrow> D \<le> 10 + 7 * c \<Longrightarrow> c = (D - 4) div 7"
  by arith+

text \<open>
  What holds in every world: pacing by a block size that is not zero, and no read after a
  Flow Control with the block size zero.
\<close>

lemma writeMsg_pacing_any_world:
  assumes rst: "is_reset t" and lo: "4 \<le> DataSize msg"
  shows "\<exists>r t' w' ev. writeMsg K E w t msg timeout = (Inr r, t', w') \<and> trace w' = trace w @ ev
    \<and> (\<forall>k. k \<noteq> 0
            \<and> (\<forall>j buf. fst (rd_reply E j buf) = 1
                    \<and> getFrameName (Data (snd (rd_reply E j buf)) 4) = FlowControl
                  \<longrightarrow> Data (snd (rd_reply E j buf)) 5 = k)
          \<longrightarrow> paced (unat k) (blocks ev))
    \<and> (\<forall>j. (\<forall>buf. Data (snd (rd_reply E (nrd w + j) buf)) 5 = 0) \<longrightarrow> nrd w' \<le> nrd w + j + 1)"
proof -
  let ?dl = "now_at E (tick w) + uint timeout"
  let ?t1 = "writeMsg_start_fill K msg t"
  let ?f = "mMessage ?t1"
  let ?c = "wr_count E (nwr w)"
  let ?w3 = "w\<lparr>tick := Suc (Suc (tick w)), nwr := Suc (nwr w), trace := trace w @ [Wr ?f ?c]\<rparr>"
  let ?t2 = "?t1\<lparr>mState := FLOW_CONTROL_STATE\<rparr>"
  obtain r t' w' where res: "writeMsg_loop K E ?dl msg ?t2 ?w3 = (r, t', w')"
    by (cases "writeMsg_loop K E ?dl msg ?t2 ?w3")
  \<comment> \<open>the trace only grows\<close>
  have ext: "\<exists>ev. trace w' = trace w @ ev"
  proof -
    define I where "I ta wa \<longleftrightarrow> (\<exists>ev. trace wa = trace w @ ev)"
      for ta :: ISO15765Transfer and wa :: io
    define Q where "Q res \<longleftrightarrow> (case res of (r, ta, wa) \<Rightarrow> (\<exists>ev. trace wa = trace w @ ev))"
      for res :: "bool \<times> ISO15765Transfer \<times> io"
    have init: "I ?t2 ?w3" unfolding I_def by simp
    have "Q (writeMsg_loop K E ?dl msg ?t2 ?w3)"
    proof (rule writeMsg_loop_rule [where I = I, OF init])
      fix ta wa tb wb
      assume inv: "I ta wa" and body: "writeMsg_body K E ?dl msg ta wa = Inr (tb, wb)"
      from body show "I tb wb"
        by (cases rule: writeMsg_body_InrE) (use inv in \<open>auto simp: I_def\<close>)
    next
      fix ta wa res
      assume inv: "I ta wa" and body: "writeMsg_body K E ?dl msg ta wa = Inl res"
      obtain rr tb wb where res': "res = (rr, tb, wb)" by (cases res)
      from body [unfolded res'] show "Q res"
        by (cases rule: writeMsg_body_InlE) (use inv in \<open>auto simp: I_def Q_def res'\<close>)
    next
      fix ta wa
      assume "I ta wa"
      then show "Q (True, clear ta, wa)" unfolding I_def Q_def by auto
    qed
    then show ?thesis unfolding res Q_def by simp
  qed
  \<comment> \<open>pacing by a non-zero block size\<close>
  have pace: "\<exists>ev. trace w' = trace w @ ev \<and> paced (unat k) (blocks ev)"
    if k0: "k \<noteq> 0"
      and fc: "\<forall>j buf. fst (rd_reply E j buf) = 1
                    \<and> getFrameName (Data (snd (rd_reply E j buf)) 4) = FlowControl
                  \<longrightarrow> Data (snd (rd_reply E j buf)) 5 = k" for k
  proof -
    define I where "I ta wa \<longleftrightarrow> mState ta \<noteq> START_STATE \<and>
       (\<exists>ev. trace wa = trace w @ ev \<and> paced (unat k) (blocks ev)
          \<and> (mState ta = FLOW_CONTROL_STATE \<longrightarrow> length (blocks ev) = 1 \<or> last (blocks ev) = unat k)
          \<and> (mState ta = BLOCK_STATE \<longrightarrow> 2 \<le> length (blocks ev) \<and> mBs ta \<noteq> 0
                \<and> last (blocks ev) + unat (mBs ta) = unat k))"
      for ta :: ISO15765Transfer and wa :: io
    define Q where "Q res \<longleftrightarrow> (case res of (r, ta, wa) \<Rightarrow>
       (\<exists>ev. trace wa = trace w @ ev \<and> paced (unat k) (blocks ev)))"
      for res :: "bool \<times> ISO15765Transfer \<times> io"
    have b1: "blocks [Wr ?f ?c] = [1]" by (rule blocks_one)
    have init: "I ?t2 ?w3"
      unfolding I_def by (auto simp: b1 paced_single intro!: exI [where x = "[Wr ?f ?c]"])
    have "Q (writeMsg_loop K E ?dl msg ?t2 ?w3)"
    proof (rule writeMsg_loop_rule [where I = I, OF init])
      fix ta wa tb wb
      assume inv: "I ta wa" and lt: "mOffset ta < DataSize msg"
        and body: "writeMsg_body K E ?dl msg ta wa = Inr (tb, wb)"
      from inv obtain ev where e: "mState ta \<noteq> START_STATE" "trace wa = trace w @ ev"
          "paced (unat k) (blocks ev)"
          "mState ta = FLOW_CONTROL_STATE \<longrightarrow> length (blocks ev) = 1 \<or> last (blocks ev) = unat k"
          "mState ta = BLOCK_STATE \<longrightarrow> 2 \<le> length (blocks ev) \<and> mBs ta \<noteq> 0
                \<and> last (blocks ev) + unat (mBs ta) = unat k"
        unfolding I_def by blast
      from body show "I tb wb"
      proof (cases rule: writeMsg_body_InrE)
        case start
        then show ?thesis using e(1) by simp
      next
        case (fc m)
        have "Data m 5 = k" using fc(2,4) that(2) [rule_format, of "nrd wa" "mMessage ta"] by simp
        then have bs: "mBs tb = ucast k" using fc by simp
        have p: "paced (unat k) (blocks (ev @ [Rd 1 m]))"
          using paced_Rd [OF e(3) _ blocks_nonempty] e(4) fc(1) by (simp add: blocks_snoc)
        show ?thesis unfolding I_def
          apply (rule conjI)
           apply (simp add: fc)
          apply (rule exI [where x = "ev @ [Rd 1 m]"])
          using p e(2) fc(1,5,6) bs k0 blocks_nonempty [of ev]
          apply (simp add: blocks_snoc ucast_byte_zero ucast_byte_unat)
          apply (cases "blocks ev")
           apply simp_all
          done
      next
        case block
        from e(5) block(1) have b: "2 \<le> length (blocks ev)" "mBs ta \<noteq> 0"
            "last (blocks ev) + unat (mBs ta) = unat k" by auto
        have dec: "unat (mBs ta - 1) = unat (mBs ta) - 1" by (rule unat_dec [OF b(2)])
        have pos: "0 < unat (mBs ta)" using b(2) by (simp add: unat_gt_0)
        have room: "Suc (last (blocks ev)) \<le> unat k" using b(3) pos by simp
        have p: "paced (unat k) (blocks (ev @ [Wr (mMessage (writeMsg_block_fill K msg ta)) 1]))"
          using paced_Wr [OF e(3), of "Suc (last (blocks ev))"] room by (simp add: blocks_snoc)
        have z: "mBs ta - 1 = 0 \<longleftrightarrow> unat (mBs ta) = 1"
          using dec pos by (metis One_nat_def Suc_pred diff_self_eq_0 unat_eq_zero)
        show ?thesis unfolding I_def
          apply (rule conjI)
           apply (simp add: block Let_def writeMsg_block_fill_fields)
          apply (rule exI [where x = "ev @ [Wr (mMessage (writeMsg_block_fill K msg ta)) 1]"])
          using p e(2) block(1,4,5) b dec pos z
          apply (auto simp: blocks_snoc Let_def writeMsg_block_fill_fields)
          done
      qed
    next
      fix ta wa res
      assume inv: "I ta wa" and lt: "mOffset ta < DataSize msg"
        and body: "writeMsg_body K E ?dl msg ta wa = Inl res"
      from inv obtain ev where e: "mState ta \<noteq> START_STATE" "trace wa = trace w @ ev"
          "paced (unat k) (blocks ev)"
          "mState ta = FLOW_CONTROL_STATE \<longrightarrow> length (blocks ev) = 1 \<or> last (blocks ev) = unat k"
          "mState ta = BLOCK_STATE \<longrightarrow> 2 \<le> length (blocks ev) \<and> mBs ta \<noteq> 0
                \<and> last (blocks ev) + unat (mBs ta) = unat k"
        unfolding I_def by blast
      obtain rr tb wb where res': "res = (rr, tb, wb)" by (cases res)
      from body [unfolded res'] show "Q res"
      proof (cases rule: writeMsg_body_InlE)
        case timeout
        then show ?thesis unfolding Q_def res' using e by auto
      next
        case start
        then show ?thesis using e(1) by simp
      next
        case (fc c m)
        have p: "paced (unat k) (blocks (ev @ [Rd c m]))"
          using paced_Rd [OF e(3) _ blocks_nonempty] e(4) fc(1) by (simp add: blocks_snoc)
        show ?thesis unfolding Q_def res'
          using p e(2) fc by (auto intro!: exI [where x = "ev @ [Rd c m]"])
      next
        case block
        from e(5) block(1) have b: "mBs ta \<noteq> 0" "last (blocks ev) + unat (mBs ta) = unat k" by auto
        have "0 < unat (mBs ta)" using b(1) by (simp add: unat_gt_0)
        then have room: "Suc (last (blocks ev)) \<le> unat k" using b(2) by simp
        have p: "paced (unat k) (blocks (ev @ [Wr (mMessage (writeMsg_block_fill K msg ta)) (wr_count E (nwr wa))]))"
          using paced_Wr [OF e(3), of "Suc (last (blocks ev))"] room by (simp add: blocks_snoc)
        show ?thesis unfolding Q_def res'
          using p e(2) block
          by (auto intro!: exI [where x = "ev @ [Wr (mMessage (writeMsg_block_fill K msg ta)) (wr_count E (nwr wa))]"])
      qed
    next
      fix ta wa
      assume inv: "I ta wa"
      then show "Q (True, clear ta, wa)" unfolding I_def Q_def by auto
    qed
    then show ?thesis unfolding res Q_def by simp
  qed
  \<comment> \<open>a block size of zero\<close>
  have zero: "nrd w' \<le> nrd w + j + 1"
    if z: "\<forall>buf. Data (snd (rd_reply E (nrd w + j) buf)) 5 = 0" for j
  proof -
    define I where "I ta wa \<longleftrightarrow> mState ta \<noteq> START_STATE \<and>
       (nrd wa \<le> nrd w + j \<or>
        (nrd wa = nrd w + j + 1 \<and> mState ta = BLOCK_STATE
           \<and> (mBs ta = 0 \<or> unat (DataSize msg - mOffset ta) < unat (mBs ta))))"
      for ta :: ISO15765Transfer and wa :: io
    define Q where "Q res \<longleftrightarrow> (case res of (r, ta, wa) \<Rightarrow> nrd wa \<le> nrd w + j + 1)"
      for res :: "bool \<times> ISO15765Transfer \<times> io"
    have init: "I ?t2 ?w3" unfolding I_def by simp
    have "Q (writeMsg_loop K E ?dl msg ?t2 ?w3)"
    proof (rule writeMsg_loop_rule [where I = I, OF init])
      fix ta wa tb wb
      assume inv: "I ta wa" and lt: "mOffset ta < DataSize msg"
        and body: "writeMsg_body K E ?dl msg ta wa = Inr (tb, wb)"
      from body show "I tb wb"
      proof (cases rule: writeMsg_body_InrE)
        case start
        then show ?thesis using inv by (simp add: I_def)
      next
        case (fc m)
        have le: "nrd wa \<le> nrd w + j" using inv fc(1) by (auto simp: I_def)
        show ?thesis
        proof (cases "nrd wa = nrd w + j")
          case True
          have "Data m 5 = 0" using z [rule_format, of "mMessage ta"] fc(2) True by simp
          then show ?thesis unfolding I_def using fc True by simp
        next
          case False
          then show ?thesis unfolding I_def using fc le by simp
        qed
      next
        case block
        let ?s = "getRemainingSize msg (mOffset ta)"
        have adv: "unat (DataSize msg - (mOffset ta + ?s)) < unat (DataSize msg - mOffset ta)"
          by (rule getRemainingSize_advance [OF lt]) (simp add: getRemainingSize_def)
        have top: "unat (DataSize msg - mOffset ta) < 2 ^ 32"
          using unsigned_less [of "DataSize msg - mOffset ta"] by simp
        have m1: "unat (0 - 1 :: ulong) = 2 ^ 32 - 1" by (simp add: unsigned_minus_1_eq_mask mask_eq_exp_minus_1)
        show ?thesis
        proof (cases "nrd wa \<le> nrd w + j")
          case True
          then show ?thesis unfolding I_def using block
            by (auto simp: Let_def writeMsg_block_fill_fields)
        next
          case False
          then have st: "nrd wa = nrd w + j + 1"
            "mBs ta = 0 \<or> unat (DataSize msg - mOffset ta) < unat (mBs ta)"
            using inv by (auto simp: I_def)
          from st(2) have nz: "mBs ta - 1 \<noteq> 0"
            and keep: "unat (DataSize msg - (mOffset ta + ?s)) < unat (mBs ta - 1)"
          proof -
            show "mBs ta - 1 \<noteq> 0"
            proof
              assume "mBs ta - 1 = 0"
              then have one: "mBs ta = 1" by simp
              then have "unat (DataSize msg - mOffset ta) < 1" using st(2) by simp
              then show False using adv by simp
            qed
            show "unat (DataSize msg - (mOffset ta + ?s)) < unat (mBs ta - 1)"
            proof (cases "mBs ta = 0")
              case True
              then show ?thesis using adv top m1 by simp
            next
              case False
              then have "unat (mBs ta - 1) = unat (mBs ta) - 1" by (rule unat_dec)
              then show ?thesis using adv st(2) False by simp
            qed
          qed
          show ?thesis unfolding I_def using block st(1) nz keep
            by (simp add: Let_def writeMsg_block_fill_fields)
        qed
      qed
    next
      fix ta wa res
      assume inv: "I ta wa" and lt: "mOffset ta < DataSize msg"
        and body: "writeMsg_body K E ?dl msg ta wa = Inl res"
      obtain rr tb wb where res': "res = (rr, tb, wb)" by (cases res)
      from body [unfolded res'] show "Q res"
      proof (cases rule: writeMsg_body_InlE)
        case timeout
        then show ?thesis unfolding Q_def res' using inv by (auto simp: I_def)
      next
        case start
        then show ?thesis using inv by (simp add: I_def)
      next
        case (fc c m)
        then show ?thesis unfolding Q_def res' using inv by (auto simp: I_def)
      next
        case block
        then show ?thesis unfolding Q_def res' using inv by (auto simp: I_def)
      qed
    next
      fix ta wa
      assume inv: "I ta wa"
      then show "Q (True, clear ta, wa)" unfolding I_def Q_def by auto
    qed
    then show ?thesis unfolding res Q_def by simp
  qed
  have w: "writeMsg K E w t msg timeout =
      (if remaining ?dl (now_at E (Suc (tick w))) = 0
          then (Inr False, t, w\<lparr>tick := Suc (Suc (tick w))\<rparr>)
          else if ?c \<noteq> 1 then (Inr False, clear ?t1, ?w3)
          else (Inr r, t', w'))"
    using res by (cases "?c = 1") (simp_all add: writeMsg_first_pass [OF rst lo] Let_def)
  have b1: "blocks [Wr ?f ?c] = [1]" by (rule blocks_one)
  show ?thesis
  proof (cases "remaining ?dl (now_at E (Suc (tick w))) = 0")
    case True
    then have "writeMsg K E w t msg timeout = (Inr False, t, w\<lparr>tick := Suc (Suc (tick w))\<rparr>)"
      unfolding w by simp
    then show ?thesis
      apply (intro exI [where x = False] exI [where x = t]
          exI [where x = "w\<lparr>tick := Suc (Suc (tick w))\<rparr>"] exI [where x = "[]"])
      apply (simp add: blocks_Nil paced_single)
      done
  next
    case False
    show ?thesis
    proof (cases "?c \<noteq> 1")
      case True
      have "writeMsg K E w t msg timeout = (Inr False, clear ?t1, ?w3)"
        unfolding w using False True by simp
      then show ?thesis
        apply (intro exI [where x = False] exI [where x = "clear ?t1"]
            exI [where x = ?w3] exI [where x = "[Wr ?f ?c]"])
        apply (simp add: b1 paced_single)
        done
    next
      case c1: False
      have eq: "writeMsg K E w t msg timeout = (Inr r, t', w')"
        unfolding w using False c1 by simp
      from ext obtain ev where ev: "trace w' = trace w @ ev" by blast
      have "paced (unat k) (blocks ev)" if "k \<noteq> 0" "\<forall>j buf. fst (rd_reply E j buf) = 1
                    \<and> getFrameName (Data (snd (rd_reply E j buf)) 4) = FlowControl
                  \<longrightarrow> Data (snd (rd_reply E j buf)) 5 = k" for k
      proof -
        from pace [OF that] obtain ev' where "trace w' = trace w @ ev'" "paced (unat k) (blocks ev')"
          by blast
        then show ?thesis using ev by simp
      qed
      then have "\<exists>ev. trace w' = trace w @ ev \<and>
          (\<forall>k. k \<noteq> 0
            \<and> (\<forall>j buf. fst (rd_reply E j buf) = 1
                    \<and> getFrameName (Data (snd (rd_reply E j buf)) 4) = FlowControl
                  \<longrightarrow> Data (snd (rd_reply E j buf)) 5 = k)
            \<longrightarrow> paced (unat k) (blocks ev))"
        using ev by blast
      then show ?thesis
        unfolding eq using zero by auto
    qed
  qed
qed


text \<open>
  In an obliging world the call succeeds, and the First Frame and every Consecutive Frame
  of the message are written: \<open>n div 7\<close> Consecutive Frames for a payload of \<open>n\<close> bytes.
\<close>

lemma writeMsg_obliging_completes:
  assumes rst: "is_reset t" and lo: "12 \<le> DataSize msg"
    and ob: "obliging E (now_at E (tick w) + uint timeout) t"
  shows "\<exists>t' w' ev. writeMsg K E w t msg timeout = (Inr True, t', w') \<and> is_reset t'
     \<and> trace w' = trace w @ ev \<and> length (written ev) = Suc ((unat (DataSize msg) - 4) div 7)"
proof -
  let ?dl = "now_at E (tick w) + uint timeout"
  let ?t1 = "writeMsg_start_fill K msg t"
  let ?f = "mMessage ?t1"
  let ?w3 = "w\<lparr>tick := Suc (Suc (tick w)), nwr := Suc (nwr w), trace := trace w @ [Wr ?f 1]\<rparr>"
  let ?t2 = "?t1\<lparr>mState := FLOW_CONTROL_STATE\<rparr>"
  let ?D = "unat (DataSize msg)"
  let ?N = "(?D - 4) div 7"
  note sz = ff_size [OF lo]
  have time: "remaining ?dl (now_at E n) \<noteq> 0" for n using ob by (simp add: obliging_def)
  have wr: "wr_count E n = 1" for n using ob by (simp add: obliging_def)
  define I where "I ta wa \<longleftrightarrow> mState ta \<noteq> START_STATE
       \<and> mMaskPid ta = mMaskPid t \<and> mPatternPid ta = mPatternPid t
       \<and> (\<exists>ev c. trace wa = trace w @ ev \<and> length (written ev) = Suc c \<and> c \<le> ?N
             \<and> unat (mOffset ta) = min (10 + 7 * c) ?D)"
    for ta :: ISO15765Transfer and wa :: io
  define Q where "Q res \<longleftrightarrow> (case res of (r, ta, wa) \<Rightarrow> r \<and> is_reset ta
       \<and> (\<exists>ev. trace wa = trace w @ ev \<and> length (written ev) = Suc ?N))"
    for res :: "bool \<times> ISO15765Transfer \<times> io"
  have init: "I ?t2 ?w3"
    unfolding I_def using sz(6)
    by (auto simp: start_fill_ids start_fill_first_fields [OF lo]
        intro!: exI [where x = "[Wr ?f 1]"] exI [where x = 0])
  have loopQ: "Q (writeMsg_loop K E ?dl msg ?t2 ?w3)"
  proof (rule writeMsg_loop_rule [where I = I, OF init])
    fix ta wa tb wb
    assume inv: "I ta wa" and lt: "mOffset ta < DataSize msg"
      and body: "writeMsg_body K E ?dl msg ta wa = Inr (tb, wb)"
    from inv obtain ev c where e: "mState ta \<noteq> START_STATE"
        "mMaskPid ta = mMaskPid t" "mPatternPid ta = mPatternPid t"
        "trace wa = trace w @ ev" "length (written ev) = Suc c" "c \<le> ?N"
        "unat (mOffset ta) = min (10 + 7 * c) ?D"
      unfolding I_def by blast
    have ltn: "unat (mOffset ta) < ?D" using lt by (simp add: word_less_nat_alt)
    from body show "I tb wb"
    proof (cases rule: writeMsg_body_InrE)
      case start
      then show ?thesis using e(1) by simp
    next
      case (fc m)
      show ?thesis unfolding I_def using e
        by (auto simp: fc written_append intro!: exI [where x = "ev @ [Rd 1 m]"] exI [where x = c])
    next
      case block
      have off: "unat (mOffset tb) = min (unat (mOffset ta) + 7) ?D"
        using block_offset_nat [OF lt] by (simp add: block Let_def writeMsg_block_fill_fields)
      have c: "unat (mOffset ta) = 10 + 7 * c" "c < ?N"
        using e(7) ltn frames_left(1) [of c ?D] by auto
      have st: "mState tb \<noteq> START_STATE" "mMaskPid tb = mMaskPid t" "mPatternPid tb = mPatternPid t"
        using e(2,3) by (simp_all add: block Let_def writeMsg_block_fill_fields)
      have "trace wb = trace w @ (ev @ [Wr (mMessage (writeMsg_block_fill K msg ta)) 1])"
        using e(4) by (simp add: block)
      moreover have "length (written (ev @ [Wr (mMessage (writeMsg_block_fill K msg ta)) 1])) = Suc (Suc c)"
        using e(5) by (simp add: written_append)
      moreover have "Suc c \<le> ?N" using c(2) by simp
      moreover have "unat (mOffset tb) = min (10 + 7 * Suc c) ?D"
        unfolding off c(1) by simp
      ultimately show ?thesis unfolding I_def using st by blast
    qed
  next
    fix ta wa res
    assume inv: "I ta wa" and body: "writeMsg_body K E ?dl msg ta wa = Inl res"
    from inv have "mMaskPid ta = mMaskPid t" "mPatternPid ta = mPatternPid t"
      unfolding I_def by simp_all
    from writeMsg_body_obliging [OF ob this] body show "Q res" by simp
  next
    fix ta wa
    assume inv: "I ta wa" and ge: "\<not> mOffset ta < DataSize msg"
    from inv obtain ev c where e: "trace wa = trace w @ ev" "length (written ev) = Suc c" "c \<le> ?N"
        "unat (mOffset ta) = min (10 + 7 * c) ?D"
      unfolding I_def by blast
    have "?D \<le> unat (mOffset ta)" using ge by (simp add: word_less_nat_alt)
    then have "?D \<le> 10 + 7 * c" using e(4) by simp
    then have "c = ?N" using frames_left(2) [OF e(3)] by simp
    then show "Q (True, clear ta, wa)"
      unfolding Q_def using e by (auto simp: is_reset_def clear_def)
  qed
  obtain r t' w' where res: "writeMsg_loop K E ?dl msg ?t2 ?w3 = (r, t', w')"
    by (cases "writeMsg_loop K E ?dl msg ?t2 ?w3")
  have w: "writeMsg K E w t msg timeout = (Inr r, t', w')"
    using res time [of "Suc (tick w)"] wr [of "nwr w"]
    by (simp add: writeMsg_first_pass [OF rst sz(7)] Let_def)
  from loopQ [unfolded res Q_def] show ?thesis unfolding w by auto
qed

text \<open>
  In an obliging world whose Flow Control frames all carry the block size \<open>k\<close>, the
  Consecutive Frames go out in blocks of \<open>k\<close>, each after one read, the last block holding
  what is left; for \<open>k = 0\<close> this is one block that holds them all.
\<close>

lemma writeMsg_obliging_blocks:
  assumes rst: "is_reset t" and lo: "12 \<le> DataSize msg"
    and ob: "obliging E (now_at E (tick w) + uint timeout) t"
    and allk: "\<forall>j buf. Data (snd (rd_reply E j buf)) 5 = k"
  shows "\<exists>r t' w' ev. writeMsg K E w t msg timeout = (r, t', w') \<and> trace w' = trace w @ ev
     \<and> blocks ev = 1 # replicate ((unat (DataSize msg) - 4) div 7 div unat k) (unat k)
          @ (if (unat (DataSize msg) - 4) div 7 mod unat k = 0 then []
             else [(unat (DataSize msg) - 4) div 7 mod unat k])"
proof -
  let ?dl = "now_at E (tick w) + uint timeout"
  let ?t1 = "writeMsg_start_fill K msg t"
  let ?f = "mMessage ?t1"
  let ?w3 = "w\<lparr>tick := Suc (Suc (tick w)), nwr := Suc (nwr w), trace := trace w @ [Wr ?f 1]\<rparr>"
  let ?t2 = "?t1\<lparr>mState := FLOW_CONTROL_STATE\<rparr>"
  let ?D = "unat (DataSize msg)"
  define N where "N = (?D - 4) div 7"
  define kn where "kn = unat k"
  note sz = ff_size [OF lo]
  have time: "remaining ?dl (now_at E n) \<noteq> 0" for n using ob by (simp add: obliging_def)
  have wr: "wr_count E n = 1" for n using ob by (simp add: obliging_def)
  have top: "?D < 2 ^ 32"
    using unsigned_less [of "DataSize msg", where 'a = nat] by simp
  have Nsmall: "Suc N < 2 ^ 32" unfolding N_def using top by simp
  define J where "J ev c ta wa \<longleftrightarrow> trace wa = trace w @ ev \<and> c \<le> N
             \<and> unat (mOffset ta) = min (10 + 7 * c) ?D
             \<and> (mState ta = FLOW_CONTROL_STATE \<longrightarrow>
                   c mod kn = 0 \<and> blocks ev = 1 # replicate (c div kn) kn)
             \<and> (mState ta = BLOCK_STATE \<longrightarrow>
                   blocks ev = 1 # replicate (c div kn) kn @ [c mod kn]
                   \<and> (c mod kn = 0 \<longrightarrow> c < N)
                   \<and> mBs ta = ucast k - of_nat (c mod kn))"
    for ev c and ta :: ISO15765Transfer and wa :: io
  define I where "I ta wa \<longleftrightarrow> mState ta \<noteq> START_STATE
       \<and> mMaskPid ta = mMaskPid t \<and> mPatternPid ta = mPatternPid t \<and> (\<exists>ev c. J ev c ta wa)"
    for ta :: ISO15765Transfer and wa :: io
  define Q where "Q res \<longleftrightarrow> (case res of (r, ta, wa) \<Rightarrow>
       (\<exists>ev. trace wa = trace w @ ev
          \<and> blocks ev = 1 # replicate (N div kn) kn @ (if N mod kn = 0 then [] else [N mod kn])))"
    for res :: "bool \<times> ISO15765Transfer \<times> io"
  have init: "I ?t2 ?w3"
  proof -
    have "J [Wr ?f 1] 0 ?t2 ?w3"
      unfolding J_def using sz(6) by (simp add: start_fill_first_fields [OF lo] blocks_one)
    moreover have "mMaskPid ?t2 = mMaskPid t" "mPatternPid ?t2 = mPatternPid t"
      by (simp_all add: start_fill_ids)
    ultimately show ?thesis unfolding I_def by auto
  qed
  have loopQ: "Q (writeMsg_loop K E ?dl msg ?t2 ?w3)"
  proof (rule writeMsg_loop_rule [where I = I, OF init])
    fix ta wa tb wb
    assume inv: "I ta wa" and lt: "mOffset ta < DataSize msg"
      and body: "writeMsg_body K E ?dl msg ta wa = Inr (tb, wb)"
    from inv obtain ev c where e0: "mState ta \<noteq> START_STATE"
        "mMaskPid ta = mMaskPid t" "mPatternPid ta = mPatternPid t" and j: "J ev c ta wa"
      unfolding I_def by blast
    from j have e: "trace wa = trace w @ ev" "c \<le> N"
        "unat (mOffset ta) = min (10 + 7 * c) ?D"
        "mState ta = FLOW_CONTROL_STATE \<longrightarrow> c mod kn = 0 \<and> blocks ev = 1 # replicate (c div kn) kn"
        "mState ta = BLOCK_STATE \<longrightarrow>
                   blocks ev = 1 # replicate (c div kn) kn @ [c mod kn]
                   \<and> (c mod kn = 0 \<longrightarrow> c < N)
                   \<and> mBs ta = ucast k - of_nat (c mod kn)"
      unfolding J_def by simp_all
    have ltn: "unat (mOffset ta) < ?D" using lt by (simp add: word_less_nat_alt)
    have c: "unat (mOffset ta) = 10 + 7 * c" "c < N"
      using e(3) ltn frames_left(1) [of c ?D] by (auto simp: N_def)
    from body show "I tb wb"
    proof (cases rule: writeMsg_body_InrE)
      case start
      then show ?thesis using e0(1) by simp
    next
      case (fc m)
      have "Data m 5 = k" using allk [rule_format, of "nrd wa" "mMessage ta"] fc(2) by simp
      then have bs: "mBs tb = ucast k" by (simp add: fc)
      have st: "mState tb = BLOCK_STATE" "mMaskPid tb = mMaskPid t" "mPatternPid tb = mPatternPid t"
        "mOffset tb = mOffset ta"
        using e0(2,3) by (simp_all add: fc)
      have fl: "c mod kn = 0" "blocks ev = 1 # replicate (c div kn) kn" using e(4) fc(1) by simp_all
      have "trace wb = trace w @ (ev @ [Rd 1 m])" using e(1) by (simp add: fc)
      moreover have "blocks (ev @ [Rd 1 m]) = 1 # replicate (c div kn) kn @ [c mod kn]"
        by (simp add: blocks_snoc fl)
      moreover have "mBs tb = ucast k - of_nat (c mod kn)" by (simp add: bs fl)
      ultimately have "J (ev @ [Rd 1 m]) c tb wb"
        unfolding J_def using st e(2,3) c(2) by simp
      then show ?thesis unfolding I_def using st by auto
    next
      case block
      let ?e = "Wr (mMessage (writeMsg_block_fill K msg ta)) 1"
      have off: "unat (mOffset tb) = min (unat (mOffset ta) + 7) ?D"
        using block_offset_nat [OF lt] by (simp add: block Let_def writeMsg_block_fill_fields)
      have off': "unat (mOffset tb) = min (10 + 7 * Suc c) ?D"
        unfolding off c(1) by simp
      have ids: "mState tb \<noteq> START_STATE" "mMaskPid tb = mMaskPid t" "mPatternPid tb = mPatternPid t"
        using e0(2,3) by (simp_all add: block Let_def writeMsg_block_fill_fields)
      have bl: "blocks ev = 1 # replicate (c div kn) kn @ [c mod kn]"
        "mBs ta = ucast k - of_nat (c mod kn)" using e(5) block(1) by simp_all
      have "c mod kn \<le> c" by simp
      with c(2) Nsmall have small: "Suc (c mod kn) < 2 ^ 32" by linarith
      have z: "mBs ta - 1 = 0 \<longleftrightarrow> Suc (c mod kn) = kn"
        unfolding bl(2) kn_def by (rule bs_countdown [OF small [unfolded kn_def]])
      have tr: "trace wb = trace w @ (ev @ [?e])"
        using e(1) by (simp add: block)
      have bl': "blocks (ev @ [?e]) = 1 # replicate (c div kn) kn @ [Suc (c mod kn)]"
        by (simp add: blocks_snoc bl(1) butlast_append)
      have "J (ev @ [?e]) (Suc c) tb wb"
      proof (cases "Suc (c mod kn) = kn")
        case True
        then have st: "mState tb = FLOW_CONTROL_STATE"
          using z by (simp add: block Let_def)
        have md: "Suc c mod kn = 0" "Suc c div kn = Suc (c div kn)"
          using True by (simp_all add: mod_Suc div_Suc)
        have "blocks (ev @ [?e]) = 1 # replicate (Suc c div kn) kn"
          unfolding bl' md True by (simp add: replicate_append_same)
        then show ?thesis unfolding J_def using st tr off' c(2) md(1) by simp
      next
        case False
        then have st: "mState tb = BLOCK_STATE" "mBs tb = mBs ta - 1"
          using z block(1) by (simp_all add: block Let_def writeMsg_block_fill_fields)
        have md: "Suc c mod kn = Suc (c mod kn)" "Suc c div kn = c div kn"
          using False by (simp_all add: mod_Suc div_Suc)
        have b: "mBs tb = ucast k - of_nat (Suc c mod kn)"
          unfolding st(2) bl(2) md by simp
        have "blocks (ev @ [?e]) = 1 # replicate (Suc c div kn) kn @ [Suc c mod kn]"
          unfolding bl' md by simp
        then show ?thesis unfolding J_def using st(1) tr off' c(2) md(1) b by simp
      qed
      then show ?thesis unfolding I_def using ids by auto
    qed
  next
    fix ta wa res
    assume inv: "I ta wa" and body: "writeMsg_body K E ?dl msg ta wa = Inl res"
    from inv have "mMaskPid ta = mMaskPid t" "mPatternPid ta = mPatternPid t"
      unfolding I_def by simp_all
    from writeMsg_body_obliging [OF ob this] body show "Q res" by simp
  next
    fix ta wa
    assume inv: "I ta wa" and ge: "\<not> mOffset ta < DataSize msg"
    from inv obtain ev c where e0: "mState ta \<noteq> START_STATE" and j: "J ev c ta wa"
      unfolding I_def by blast
    from j have e: "trace wa = trace w @ ev" "c \<le> N"
        "unat (mOffset ta) = min (10 + 7 * c) ?D"
        "mState ta = FLOW_CONTROL_STATE \<longrightarrow> c mod kn = 0 \<and> blocks ev = 1 # replicate (c div kn) kn"
        "mState ta = BLOCK_STATE \<longrightarrow>
                   blocks ev = 1 # replicate (c div kn) kn @ [c mod kn]
                   \<and> (c mod kn = 0 \<longrightarrow> c < N)
                   \<and> mBs ta = ucast k - of_nat (c mod kn)"
      unfolding J_def by simp_all
    have "?D \<le> unat (mOffset ta)" using ge by (simp add: word_less_nat_alt)
    then have "?D \<le> 10 + 7 * c" using e(3) by simp
    then have cN: "c = N" using frames_left(2) [of c ?D] e(2) by (simp add: N_def)
    have "blocks ev = 1 # replicate (N div kn) kn @ (if N mod kn = 0 then [] else [N mod kn])"
      using e0 e(4,5) cN by (cases "mState ta") auto
    then show "Q (True, clear ta, wa)"
      unfolding Q_def using e(1) by auto
  qed
  obtain r t' w' where res: "writeMsg_loop K E ?dl msg ?t2 ?w3 = (r, t', w')"
    by (cases "writeMsg_loop K E ?dl msg ?t2 ?w3")
  have w: "writeMsg K E w t msg timeout = (Inr r, t', w')"
    using res time [of "Suc (tick w)"] wr [of "nwr w"]
    by (simp add: writeMsg_first_pass [OF rst sz(7)] Let_def)
  from loopQ [unfolded res Q_def] show ?thesis unfolding w N_def kn_def by auto
qed

text \<open>
  C6. A message of at least 8 payload bytes, written on a transfer at rest; \<open>ev\<close> are the
  calls of the wrapped channel that \<open>writeMsg\<close> makes, and \<open>blocks ev\<close> counts the frames
  written before the first read, between successive reads and after the last read.

  In every world: if every Flow Control frame the channel delivers carries the block size
  \<open>k > 0\<close>, then exactly \<open>k\<close> frames are written between each read and the next, and at most
  \<open>k\<close> after the last read; and if the Flow Control delivered by the \<open>j\<close>-th read carries
  the block size 0, no further read follows it.

  In an obliging world (time never runs out, frames are accepted, every read delivers an
  acceptable Flow Control) the call returns \<open>true\<close> with the transfer reset, and the First
  Frame and all \<open>n div 7\<close> Consecutive Frames of the payload of \<open>n\<close> bytes are written. So
  the Consecutive Frames that remain when a Flow Control with block size 0 arrives are all
  written with no read between them. If all Flow Control frames carry the block size \<open>k\<close>,
  the blocks are exactly: the First Frame; for \<open>k > 0\<close>, after each read \<open>k\<close> Consecutive
  Frames, and after the last read what is left of them; for \<open>k = 0\<close>, after the one read
  all the Consecutive Frames.
\<close>

theorem writeMsg_flow_control_pacing:
  assumes rst: "is_reset t" and lo: "12 \<le> DataSize msg"
  shows "\<exists>r t' w' ev. writeMsg K E w t msg timeout = (Inr r, t', w') \<and> trace w' = trace w @ ev
    \<and> (\<forall>k. k \<noteq> 0
            \<and> (\<forall>j buf. fst (rd_reply E j buf) = 1
                    \<and> getFrameName (Data (snd (rd_reply E j buf)) 4) = FlowControl
                  \<longrightarrow> Data (snd (rd_reply E j buf)) 5 = k)
          \<longrightarrow> paced (unat k) (blocks ev))
    \<and> (\<forall>j. (\<forall>buf. Data (snd (rd_reply E (nrd w + j) buf)) 5 = 0) \<longrightarrow> nrd w' \<le> nrd w + j + 1)
    \<and> (obliging E (now_at E (tick w) + uint timeout) t \<longrightarrow>
          r \<and> is_reset t' \<and> length (written ev) = 1 + (unat (DataSize msg) - 4) div 7
          \<and> (\<forall>k. (\<forall>j buf. Data (snd (rd_reply E j buf)) 5 = k) \<longrightarrow>
                blocks ev =
                  (if k = 0 then [1, (unat (DataSize msg) - 4) div 7]
                   else 1 # replicate ((unat (DataSize msg) - 4) div 7 div unat k) (unat k)
                        @ (if (unat (DataSize msg) - 4) div 7 mod unat k = 0 then []
                           else [(unat (DataSize msg) - 4) div 7 mod unat k]))))"
proof -
  let ?N = "(unat (DataSize msg) - 4) div 7"
  note sz = ff_size [OF lo]
  have N1: "?N \<noteq> 0" using sz(6) by simp
  from writeMsg_pacing_any_world [OF rst sz(7), of K E w timeout]
  obtain r t' w' ev where a: "writeMsg K E w t msg timeout = (Inr r, t', w')"
      "trace w' = trace w @ ev"
      "\<forall>k. k \<noteq> 0
            \<and> (\<forall>j buf. fst (rd_reply E j buf) = 1
                    \<and> getFrameName (Data (snd (rd_reply E j buf)) 4) = FlowControl
                  \<longrightarrow> Data (snd (rd_reply E j buf)) 5 = k)
          \<longrightarrow> paced (unat k) (blocks ev)"
      "\<forall>j. (\<forall>buf. Data (snd (rd_reply E (nrd w + j) buf)) 5 = 0) \<longrightarrow> nrd w' \<le> nrd w + j + 1"
    by blast
  have good: "r \<and> is_reset t' \<and> length (written ev) = 1 + ?N
          \<and> (\<forall>k. (\<forall>j buf. Data (snd (rd_reply E j buf)) 5 = k) \<longrightarrow>
                blocks ev =
                  (if k = 0 then [1, ?N]
                   else 1 # replicate (?N div unat k) (unat k)
                        @ (if ?N mod unat k = 0 then [] else [?N mod unat k])))"
    if ob: "obliging E (now_at E (tick w) + uint timeout) t"
  proof -
    from writeMsg_obliging_completes [OF rst lo ob, of K]
    obtain t2 w2 ev2 where c: "writeMsg K E w t msg timeout = (Inr True, t2, w2)" "is_reset t2"
        "trace w2 = trace w @ ev2" "length (written ev2) = Suc ?N"
      by blast
    have fin: "r" "is_reset t'" "length (written ev) = 1 + ?N"
      using a(1,2) c by simp_all
    have shape: "blocks ev =
                  (if k = 0 then [1, ?N]
                   else 1 # replicate (?N div unat k) (unat k)
                        @ (if ?N mod unat k = 0 then [] else [?N mod unat k]))"
      if allk: "\<forall>j buf. Data (snd (rd_reply E j buf)) 5 = k" for k
    proof -
      from writeMsg_obliging_blocks [OF rst lo ob allk, of K]
      obtain r3 t3 w3 ev3 where d: "writeMsg K E w t msg timeout = (r3, t3, w3)"
          "trace w3 = trace w @ ev3"
          "blocks ev3 = 1 # replicate (?N div unat k) (unat k)
             @ (if ?N mod unat k = 0 then [] else [?N mod unat k])"
        by blast
      have "ev3 = ev" using a(1,2) d(1,2) by simp
      then show ?thesis using d(3) N1 by (cases "k = 0") simp_all
    qed
    show ?thesis using fin shape by blast
  qed
  show ?thesis
    apply (intro exI [where x = r] exI [where x = t'] exI [where x = w'] exI [where x = ev])
    using a good apply blast
    done
qed

theorem writeMsg_flow_control_pacing_witness:
  "is_reset (idle_transfer 0x7FF 0x7E8 0x7E0) \<and> 12 \<le> DataSize msg30
   \<and> fst (writeMsg j2534_std (fc_env 3) io0 (idle_transfer 0x7FF 0x7E8 0x7E0) msg30 1000) = Inr True
   \<and> blocks (trace (snd (snd (writeMsg j2534_std (fc_env 3) io0
                    (idle_transfer 0x7FF 0x7E8 0x7E0) msg30 1000)))) = [1, 3, 1]
   \<and> fst (writeMsg j2534_std (fc_env 0) io0 (idle_transfer 0x7FF 0x7E8 0x7E0) msg30 1000) = Inr True
   \<and> blocks (trace (snd (snd (writeMsg j2534_std (fc_env 0) io0
                    (idle_transfer 0x7FF 0x7E8 0x7E0) msg30 1000)))) = [1, 4]
   \<and> nrd (snd (snd (writeMsg j2534_std (fc_env 0) io0 (idle_transfer 0x7FF 0x7E8 0x7E0) msg30 1000)))
        \<le> nrd io0 + 0 + 1"
proof -
  let ?T = "idle_transfer 0x7FF 0x7E8 0x7E0"
  have h1: "is_reset ?T"
    by (simp add: is_reset_def idle_transfer_def)
  have d: "DataSize msg30 = 34"
    by (simp add: msg30_def bytes_msg_def)
  have h2: "12 \<le> DataSize msg30"
    by (simp add: d)
  have n: "(unat (DataSize msg30) - 4) div 7 = 4"
    by (simp add: d)
  have ob: "obliging (fc_env b) (now_at (fc_env b) (tick io0) + uint (1000 :: ulong)) ?T" for b
    by (simp add: obliging_def fc_env_def io0_def remaining_def idle_transfer_def bytes_msg_def
        data2pid_def getFrameName_def IS_SF_def IS_FF_def IS_CF_def IS_FC_def)
  have bs: "\<forall>j buf. Data (snd (rd_reply (fc_env b) j buf)) 5 = b" for b
    by (simp add: fc_env_def bytes_msg_def)
  have z: "\<forall>buf. Data (snd (rd_reply (fc_env 0) (nrd io0 + 0) buf)) 5 = 0"
    by (simp add: fc_env_def bytes_msg_def)
  from writeMsg_flow_control_pacing [OF h1 h2, of j2534_std "fc_env 3" io0 1000]
  obtain r t' w' ev where a: "writeMsg j2534_std (fc_env 3) io0 ?T msg30 1000 = (Inr r, t', w')"
      "trace w' = trace io0 @ ev"
      "obliging (fc_env 3) (now_at (fc_env 3) (tick io0) + uint (1000 :: ulong)) ?T \<longrightarrow>
          r \<and> is_reset t' \<and> length (written ev) = 1 + (unat (DataSize msg30) - 4) div 7
          \<and> (\<forall>k. (\<forall>j buf. Data (snd (rd_reply (fc_env 3) j buf)) 5 = k) \<longrightarrow>
                blocks ev =
                  (if k = 0 then [1, (unat (DataSize msg30) - 4) div 7]
                   else 1 # replicate ((unat (DataSize msg30) - 4) div 7 div unat k) (unat k)
                        @ (if (unat (DataSize msg30) - 4) div 7 mod unat k = 0 then []
                           else [(unat (DataSize msg30) - 4) div 7 mod unat k])))"
    by blast
  have ev: "ev = trace w'" using a(2) by (simp add: io0_def)
  have r3: "r" using a(3) ob by blast
  have "blocks ev = (if (3 :: u8) = 0 then [1, (unat (DataSize msg30) - 4) div 7]
                   else 1 # replicate ((unat (DataSize msg30) - 4) div 7 div unat (3 :: u8)) (unat (3 :: u8))
                        @ (if (unat (DataSize msg30) - 4) div 7 mod unat (3 :: u8) = 0 then []
                           else [(unat (DataSize msg30) - 4) div 7 mod unat (3 :: u8)]))"
    using a(3) ob bs [of 3] by blast
  then have b3: "blocks (trace w') = [1, 3, 1]"
    unfolding n ev by simp
  from writeMsg_flow_control_pacing [OF h1 h2, of j2534_std "fc_env 0" io0 1000]
  obtain r0 t0 w0 ev0 where b: "writeMsg j2534_std (fc_env 0) io0 ?T msg30 1000 = (Inr r0, t0, w0)"
      "trace w0 = trace io0 @ ev0"
      "\<forall>j. (\<forall>buf. Data (snd (rd_reply (fc_env 0) (nrd io0 + j) buf)) 5 = 0) \<longrightarrow> nrd w0 \<le> nrd io0 + j + 1"
      "obliging (fc_env 0) (now_at (fc_env 0) (tick io0) + uint (1000 :: ulong)) ?T \<longrightarrow>
          r0 \<and> is_reset t0 \<and> length (written ev0) = 1 + (unat (DataSize msg30) - 4) div 7
          \<and> (\<forall>k. (\<forall>j buf. Data (snd (rd_reply (fc_env 0) j buf)) 5 = k) \<longrightarrow>
                blocks ev0 =
                  (if k = 0 then [1, (unat (DataSize msg30) - 4) div 7]
                   else 1 # replicate ((unat (DataSize msg30) - 4) div 7 div unat k) (unat k)
                        @ (if (unat (DataSize msg30) - 4) div 7 mod unat k = 0 then []
                           else [(unat (DataSize msg30) - 4) div 7 mod unat k])))"
    by blast
  have ev0: "ev0 = trace w0" using b(2) by (simp add: io0_def)
  have r0: "r0" using b(4) ob by blast
  have "blocks ev0 = (if (0 :: u8) = 0 then [1, (unat (DataSize msg30) - 4) div 7]
                   else 1 # replicate ((unat (DataSize msg30) - 4) div 7 div unat (0 :: u8)) (unat (0 :: u8))
                        @ (if (unat (DataSize msg30) - 4) div 7 mod unat (0 :: u8) = 0 then []
                           else [(unat (DataSize msg30) - 4) div 7 mod unat (0 :: u8)]))"
    using b(4) ob bs [of 0] by blast
  then have b0: "blocks (trace w0) = [1, 4]"
    unfolding n ev0 by simp
  have p0: "nrd w0 \<le> nrd io0 + 0 + 1"
    using b(3) [rule_format, of 0] z by simp
  show ?thesis
    using h1 h2 r3 b3 r0 b0 p0 unfolding a(1) b(1) by simp
qed

subsection \<open>The invariant of the transfer\<close>

lemma is_reset_clear: "is_reset (clear t)"
  by (simp add: is_reset_def clear_def)

lemma transfer_inv_clear: "transfer_inv (clear t)"
  by (simp add: transfer_inv_def is_reset_clear)

lemma getRemainingSize_le: "unat (getRemainingSize msg off) \<le> 7"
proof -
  have "getRemainingSize msg off \<le> 7"
    by (simp add: getRemainingSize_def Let_def not_less)
  then show ?thesis by (simp add: word_le_nat_alt)
qed

lemma block_fill_DataSize: "DataSize (mMessage (writeMsg_block_fill K msg t)) \<le> 12"
proof -
  have "unat (5 + getRemainingSize msg (mOffset t)) = 5 + unat (getRemainingSize msg (mOffset t))"
    using getRemainingSize_le [of msg "mOffset t"] by (simp add: unat_word_ariths)
  then have "unat (5 + getRemainingSize msg (mOffset t)) \<le> 12"
    using getRemainingSize_le [of msg "mOffset t"] by simp
  then have "5 + getRemainingSize msg (mOffset t) \<le> 12"
    by (simp add: word_le_nat_alt)
  then show ?thesis
    by (simp add: writeMsg_block_fill_def Let_def paddingMessage_def)
qed

lemma start_fill_bounds:
  assumes lo: "4 \<le> DataSize msg"
  shows "mState (writeMsg_start_fill K msg t) = mState t"
    and "4 \<le> mOffset (writeMsg_start_fill K msg t)"
    and "mOffset (writeMsg_start_fill K msg t) \<le> DataSize msg"
    and "DataSize (mMessage (writeMsg_start_fill K msg t)) \<le> 12"
proof -
  show "mState (writeMsg_start_fill K msg t) = mState t"
    by (simp add: writeMsg_start_fill_def Let_def split: prod.splits)
  show "4 \<le> mOffset (writeMsg_start_fill K msg t)"
  proof (cases "DataSize msg \<le> 11")
    case True
    then show ?thesis using lo by (simp add: start_fill_single_fields [OF lo True])
  next
    case False
    then have "12 \<le> DataSize msg" by (simp add: word_le_nat_alt)
    then show ?thesis by (simp add: start_fill_first_fields)
  qed
  show "mOffset (writeMsg_start_fill K msg t) \<le> DataSize msg"
  proof (cases "DataSize msg \<le> 11")
    case True
    then show ?thesis by (simp add: start_fill_single_fields [OF lo True])
  next
    case False
    then have hi: "12 \<le> DataSize msg" by (simp add: word_le_nat_alt)
    then have "10 \<le> DataSize msg" by (simp add: word_le_nat_alt)
    then show ?thesis by (simp add: start_fill_first_fields [OF hi])
  qed
  show "DataSize (mMessage (writeMsg_start_fill K msg t)) \<le> 12"
  proof (cases "DataSize msg \<le> 11")
    case True
    then have "unat (DataSize msg + 1) \<le> 12"
      by (simp add: word_le_nat_alt unat_word_ariths)
    then have "DataSize msg + 1 \<le> 12" by (simp add: word_le_nat_alt)
    then show ?thesis by (simp add: start_fill_single_fields [OF lo True])
  next
    case False
    then have hi: "12 \<le> DataSize msg" by (simp add: word_le_nat_alt)
    then show ?thesis by (simp add: start_fill_first_fields [OF hi])
  qed
qed

lemma block_advance:
  assumes "off < DataSize msg" "4 \<le> off"
  shows "4 \<le> off + getRemainingSize msg off" "off + getRemainingSize msg off \<le> DataSize msg"
proof -
  let ?s = "getRemainingSize msg off"
  let ?D = "DataSize msg"
  have s7: "unat ?s \<le> 7" by (rule getRemainingSize_le)
  have sle: "unat ?s \<le> unat (?D - off)"
    by (auto simp: getRemainingSize_def Let_def word_le_nat_alt word_less_nat_alt)
  have lt: "unat off < unat ?D" using assms(1) by (simp add: word_less_nat_alt)
  have sub: "unat (?D - off) = unat ?D - unat off"
    using lt by (simp add: unat_sub word_le_nat_alt)
  have top: "unat ?D < 2 ^ 32"
    using unsigned_less [of ?D, where 'a = nat] by simp
  have "unat off + unat ?s < 2 ^ 32"
    using sle sub lt top by simp
  then have nowrap: "unat (off + ?s) = unat off + unat ?s"
    by (simp add: unat_add_lem [THEN iffD1])
  show "4 \<le> off + ?s" using assms(2) nowrap by (simp add: word_le_nat_alt)
  show "off + ?s \<le> ?D" using nowrap sle sub lt by (simp add: word_le_nat_alt)
qed

lemma writeMsg_loop_inv:
  assumes fm: "DataSize msg \<le> 4128"
    and fe: "\<forall>k buf. fits (snd (rd_reply E k buf))"
    and init: "mState t \<noteq> START_STATE" "4 \<le> mOffset t" "mOffset t \<le> DataSize msg"
      "DataSize (mMessage t) \<le> 4128"
  shows "transfer_inv (fst (snd (writeMsg_loop K E dl msg t w)))"
proof -
  define I where "I ta wa \<longleftrightarrow> mState ta \<noteq> START_STATE \<and> 4 \<le> mOffset ta
      \<and> mOffset ta \<le> DataSize msg \<and> DataSize (mMessage ta) \<le> 4128"
    for ta :: ISO15765Transfer and wa :: io
  define Q where "Q res \<longleftrightarrow> transfer_inv (fst (snd res))"
    for res :: "bool \<times> ISO15765Transfer \<times> io"
  have small: "(12 :: ulong) \<le> 4128" by simp
  have "Q (writeMsg_loop K E dl msg t w)"
  proof (rule writeMsg_loop_rule [where I = I])
    show "I t w" using init by (simp add: I_def)
  next
    fix ta wa tb wb
    assume inv: "I ta wa" and lt: "mOffset ta < DataSize msg"
      and body: "writeMsg_body K E dl msg ta wa = Inr (tb, wb)"
    from body show "I tb wb"
    proof (cases rule: writeMsg_body_InrE)
      case start
      then show ?thesis using inv by (simp add: I_def)
    next
      case (fc m)
      have "fits m" using fe [rule_format, of "nrd wa" "mMessage ta"] fc(2) by simp
      then show ?thesis using inv fc by (simp add: I_def fits_def)
    next
      case block
      have o4: "4 \<le> mOffset ta" using inv by (simp add: I_def)
      note adv = block_advance [OF lt o4]
      have ds: "DataSize (mMessage (writeMsg_block_fill K msg ta)) \<le> 4128"
        using block_fill_DataSize [of K msg ta] small by (rule order_trans)
      show ?thesis unfolding I_def using block adv ds
        by (simp add: Let_def writeMsg_block_fill_fields)
    qed
  next
    fix ta wa res
    assume inv: "I ta wa" and lt: "mOffset ta < DataSize msg"
      and body: "writeMsg_body K E dl msg ta wa = Inl res"
    obtain rr tb wb where res': "res = (rr, tb, wb)" by (cases res)
    from body [unfolded res'] show "Q res"
    proof (cases rule: writeMsg_body_InlE)
      case timeout
      have "mOffset ta \<le> 4128" using inv fm by (auto simp: I_def)
      then show ?thesis unfolding Q_def res' using timeout inv by (simp add: I_def transfer_inv_def)
    next
      case start
      then show ?thesis unfolding Q_def res' by (simp add: transfer_inv_clear)
    next
      case (fc c m)
      then show ?thesis unfolding Q_def res' by (simp add: transfer_inv_clear)
    next
      case block
      then show ?thesis unfolding Q_def res' by (simp add: transfer_inv_clear)
    qed
  next
    fix ta wa
    show "Q (True, clear ta, wa)" by (simp add: Q_def transfer_inv_clear)
  qed
  then show ?thesis by (simp add: Q_def)
qed

lemma writeMsg_preserves_inv:
  assumes inv: "transfer_inv t" and fm: "fits msg"
    and fe: "\<forall>k buf. fits (snd (rd_reply E k buf))"
    and run: "writeMsg K E w t msg timeout = (r, t', w')"
  shows "transfer_inv t'"
proof (cases "DataSize msg < 4")
  case True
  then have "t' = t" using run by (simp add: writeMsg_def Let_def steady_clock_now_def)
  then show ?thesis using inv by simp
next
  case False
  then have lo: "4 \<le> DataSize msg" by (simp add: not_less)
  show ?thesis
  proof (cases "mState t = START_STATE")
    case False
    then have "t' = clear t" using run \<open>\<not> DataSize msg < 4\<close>
      by (simp add: writeMsg_def Let_def steady_clock_now_def)
    then show ?thesis by (simp add: transfer_inv_clear)
  next
    case True
    then have rst: "is_reset t" using inv by (simp add: transfer_inv_def)
    let ?t1 = "writeMsg_start_fill K msg t"
    note b = start_fill_bounds [OF lo, of K t]
    have ds: "DataSize (mMessage ?t1) \<le> 4128"
      using b(4) by (rule order_trans) simp
    have loop: "transfer_inv (fst (snd (writeMsg_loop K E dl msg (?t1\<lparr>mState := FLOW_CONTROL_STATE\<rparr>) wa)))"
      for dl wa
      by (rule writeMsg_loop_inv [OF fm [unfolded fits_def] fe]) (use b ds in simp_all)
    show ?thesis
      using run loop inv
      by (auto simp: writeMsg_first_pass [OF rst lo] Let_def transfer_inv_clear split: if_splits prod.splits)
         (metis fst_conv snd_conv)+
  qed
qed

lemma sendFlowControlMessage_fields:
  assumes "sendFlowControlMessage K E cfg t w = (ok, t', w')"
  shows "mState t' = mState t" "mOffset t' = mOffset t" "mMessage t' = mMessage t"
    "mSequence t' = mSequence t"
  using assms
  by (auto simp: sendFlowControlMessage_def Let_def mChannel_writeMsgs_def split: if_splits prod.splits)

lemma first_frame_length_bound:
  fixes a b :: u8
  shows "4 + (push_bit 8 (ucast (a AND 0x0F)) OR ucast (b AND 0xFF) :: ulong) \<le> 4128"
proof -
  let ?x = "push_bit 8 (ucast (a AND 0x0F)) OR ucast (b AND 0xFF) :: ulong"
  have m4: "(0x0F :: u8) = mask 4" and m8: "(0xFF :: u8) = mask 8"
    by (simp_all add: mask_eq_exp_minus_1)
  have "take_bit 12 ?x = ?x"
    unfolding m4 m8 by (rule bit_word_eqI) (auto simp: bit_simps)
  moreover have "?x AND mask 12 < 2 ^ 12"
    by (rule and_mask_less') simp
  ultimately have "?x < 2 ^ 12"
    by (simp add: take_bit_eq_mask)
  then have "unat ?x < 4096" by (simp add: word_less_nat_alt)
  then have "unat (4 + ?x) \<le> 4128" by (simp add: unat_word_ariths)
  then show ?thesis by (simp add: word_le_nat_alt)
qed


lemma readMsg_finish_inv:
  assumes "readMsg_finish t w = (e, out, t', w')"
    and "(mState t \<noteq> START_STATE \<and> 4 \<le> mOffset t \<and> DataSize (mMessage t) \<le> 4128)
         \<or> DataSize (mMessage t) \<le> mOffset t"
  shows "transfer_inv t'"
proof (cases "DataSize (mMessage t) \<le> mOffset t")
  case True
  then have "t' = clear t" using assms(1) by (simp add: readMsg_finish_def)
  then show ?thesis by (simp add: transfer_inv_clear)
next
  case False
  then have "t' = t" using assms(1) by (simp add: readMsg_finish_def)
  moreover have "mOffset t \<le> 4128" using False assms(2) by (auto simp: not_le)
  ultimately show ?thesis using False assms(2) by (auto simp: transfer_inv_def)
qed

lemma block_read_advance:
  assumes "4 \<le> off" "off \<le> 4128"
  shows "4 \<le> off + getRemainingSize m off"
proof -
  have s7: "unat (getRemainingSize m off) \<le> 7" by (rule getRemainingSize_le)
  have "unat off \<le> 4128" using assms(2) by (simp add: word_le_nat_alt)
  then have "unat (off + getRemainingSize m off) = unat off + unat (getRemainingSize m off)"
    using s7 by (simp add: unat_word_ariths)
  then show ?thesis using assms(1) by (simp add: word_le_nat_alt)
qed

lemma readMsg_exit_preserves_inv:
  assumes inv: "transfer_inv t"
    and run: "readMsg_exit K E cfg w t in_msg = (e, out, t', w')"
  shows "transfer_inv t'"
proof (cases "DataSize in_msg < 4 \<or> data2pid (Data in_msg) AND mMaskPid t \<noteq> mPatternPid t")
  case True
  then have "t' = clear t" using run by (auto simp: readMsg_exit_def split: if_splits)
  then show ?thesis by (simp add: transfer_inv_clear)
next
  case ok: False
  show ?thesis
  proof (cases "mState t")
    case FLOW_CONTROL_STATE
    then have "t' = clear t" using run ok by (auto simp: readMsg_exit_def Let_def)
    then show ?thesis by (simp add: transfer_inv_clear)
  next
    case START_STATE
    let ?rm = "prepareReceivedMessageHeaders K (mMessage t) in_msg"
    show ?thesis
    proof (cases "getFrameName (Data in_msg 4) = SingleFrame")
      case True
      let ?size = "ucast (Data in_msg 4 AND 0x0F) :: ulong"
      let ?t2 = "t\<lparr>mOffset := 4 + ?size,
                   mMessage := ?rm\<lparr>DataSize := 4 + ?size,
                     Data := memcpy (Data ?rm) (unat (4 :: ulong)) (Data in_msg) (4 + 1) (unat ?size)\<rparr>\<rparr>"
      have "readMsg_finish ?t2 w = (e, out, t', w')"
        using run ok START_STATE True by (simp add: readMsg_exit_def Let_def)
      then show ?thesis by (rule readMsg_finish_inv) simp
    next
      case nsf: False
      show ?thesis
      proof (cases "getFrameName (Data in_msg 4) = FirstFrame")
        case False
        then have "t' = clear (t\<lparr>mOffset := 4, mMessage := ?rm\<rparr>)"
          using run ok START_STATE nsf by (auto simp: readMsg_exit_def Let_def)
        then show ?thesis by (simp add: transfer_inv_clear)
      next
        case True
        let ?full = "push_bit 8 (ucast (Data in_msg 4 AND 0x0F)) OR ucast (Data in_msg (4 + 1) AND 0xFF) :: ulong"
        let ?t2 = "t\<lparr>mOffset := 4, mSequence := mSequence t + 1, mOffset := 4 + (8 - 1 - 1),
                     mMessage := ?rm\<lparr>DataSize := 4 + ?full,
                       Data := memcpy (Data ?rm) (unat (4 :: ulong)) (Data in_msg) (4 + 1 + 1)
                                 (unat (8 - 1 - 1 :: ulong))\<rparr>\<rparr>"
        obtain ok' t3 w3 where fc: "sendFlowControlMessage K E cfg ?t2 w = (ok', t3, w3)"
          by (cases "sendFlowControlMessage K E cfg ?t2 w")
        note f = sendFlowControlMessage_fields [OF fc]
        show ?thesis
        proof (cases ok')
          case False
          then have "t' = clear t3"
            using run ok START_STATE nsf True fc by (simp add: readMsg_exit_def Let_def)
          then show ?thesis by (simp add: transfer_inv_clear)
        next
          case True
          have "readMsg_finish (t3\<lparr>mState := BLOCK_STATE\<rparr>) w3 = (e, out, t', w')"
            using run ok START_STATE nsf \<open>getFrameName (Data in_msg 4) = FirstFrame\<close> fc True
            by (simp add: readMsg_exit_def Let_def)
          then show ?thesis
            by (rule readMsg_finish_inv) (simp add: f first_frame_length_bound)
        qed
      qed
    qed
  next
    case BLOCK_STATE
    then have b: "4 \<le> mOffset t" "mOffset t \<le> 4128" "DataSize (mMessage t) \<le> 4128"
      using inv by (auto simp: transfer_inv_def is_reset_def)
    show ?thesis
    proof (cases "ucast (Data in_msg 4) AND 0xF \<noteq> mSequence t mod 0x10")
      case True
      then have "t' = clear t" using run ok BLOCK_STATE by (auto simp: readMsg_exit_def Let_def)
      then show ?thesis by (simp add: transfer_inv_clear)
    next
      case seq: False
      let ?size = "getRemainingSize (mMessage t) (mOffset t)"
      let ?t2 = "t\<lparr>mSequence := mSequence t + 1, mOffset := mOffset t + ?size,
                   mMessage := (mMessage t)\<lparr>Data := memcpy (Data (mMessage t)) (unat (mOffset t))
                                  (Data in_msg) (4 + 1) (unat ?size)\<rparr>,
                   mBs := mBs t - 1\<rparr>"
      have adv: "4 \<le> mOffset t + ?size" by (rule block_read_advance [OF b(1,2)])
      show ?thesis
      proof (cases "mBs t - 1 = 0")
        case False
        have "readMsg_finish ?t2 w = (e, out, t', w')"
          using run ok BLOCK_STATE seq False by (simp add: readMsg_exit_def Let_def)
        then show ?thesis
          by (rule readMsg_finish_inv) (simp add: BLOCK_STATE adv b)
      next
        case True
        obtain ok' t3 w3 where fc: "sendFlowControlMessage K E cfg ?t2 w = (ok', t3, w3)"
          by (cases "sendFlowControlMessage K E cfg ?t2 w")
        note f = sendFlowControlMessage_fields [OF fc]
        show ?thesis
        proof (cases ok')
          case False
          then have "t' = clear t3"
            using run ok BLOCK_STATE seq True fc by (simp add: readMsg_exit_def Let_def)
          then show ?thesis by (simp add: transfer_inv_clear)
        next
          case ok2: True
          have "readMsg_finish t3 w3 = (e, out, t', w')"
            using run ok BLOCK_STATE seq True fc ok2 by (simp add: readMsg_exit_def Let_def)
          then show ?thesis
            by (rule readMsg_finish_inv) (simp add: f BLOCK_STATE adv b)
        qed
      qed
    qed
  qed
qed

lemma ctor_is_reset: "is_reset (ISO15765Transfer_ctor raw pMaskMsg pPatternMsg pFlowControlMsg)"
  by (simp add: ISO15765Transfer_ctor_def is_reset_clear)

lemma reachable_inv: "reachable K t \<Longrightarrow> transfer_inv t"
proof (induction rule: reachable.induct)
  case (ctor raw pMaskMsg pPatternMsg pFlowControlMsg)
  then show ?case by (simp add: transfer_inv_def ctor_is_reset)
next
  case (clear t)
  then show ?case by (simp add: transfer_inv_clear)
next
  case (writeMsg t msg E w timeout r t' w')
  then show ?case by (blast intro: writeMsg_preserves_inv)
next
  case (readMsg t E cfg w in_msg ok out_msg t' w')
  from readMsg.hyps(2) obtain e where "readMsg_exit K E cfg w t in_msg = (e, out_msg, t', w')"
    by (auto simp: readMsg_def split: prod.splits)
  then show ?case using readMsg.IH by (blast intro: readMsg_exit_preserves_inv)
qed

text \<open>
  C8. Of every reachable transfer (one that the constructor made, or that a call of
  \<open>clear\<close>, \<open>writeMsg\<close> or \<open>readMsg\<close> left, on whichever path it returned), the state is
  \<open>START_STATE\<close> exactly when \<open>mOffset\<close>, \<open>mSequence\<close>, \<open>mBs\<close> and \<open>mStmin\<close> are all zero.
\<close>

theorem transfer_state_invariant:
  assumes "reachable K t"
  shows "mState t = START_STATE \<longleftrightarrow> mOffset t = 0 \<and> mSequence t = 0 \<and> mBs t = 0 \<and> mStmin t = 0"
proof -
  from reachable_inv [OF assms] consider
      (rest) "is_reset t"
    | (busy) "mState t \<noteq> START_STATE" "4 \<le> mOffset t"
    by (auto simp: transfer_inv_def)
  then show ?thesis
  proof cases
    case rest
    then show ?thesis by (simp add: is_reset_def)
  next
    case busy
    then have "mOffset t \<noteq> 0" by auto
    then show ?thesis using busy(1) by simp
  qed
qed

text \<open>
  Scenario S3 of the specification, first step: the First Frame arrives, the Flow Control
  goes out, and the transfer waits in \<open>BLOCK_STATE\<close>.
\<close>

lemma read_first_frame:
  "(case readMsg j2534_std (fc_env 8) Map.empty io0 fresh_transfer first_frame10 of
      (ok, out_msg, t, w) \<Rightarrow> (ok, out_msg = None, mState t, mOffset t, mSequence t, mBs t, mStmin t,
         map frame_bytes (written (trace w))))
   = (False, True, BLOCK_STATE, 10, 1, 0, 0, [[0, 0, 0x07, 0xE0, 0x30, 0, 0, 0, 0, 0, 0, 0]])"
  by (simp add: readMsg_def readMsg_exit_def readMsg_finish_def sendFlowControlMessage_def getValue_def
      fresh_transfer_def first_frame10_def ISO15765Transfer_ctor_def idle_transfer_def bytes_msg_def
      fc_env_def io0_def j2534_std_def mChannel_writeMsgs_def data2pid_def pid2Data_def
      getFrameName_def IS_SF_def IS_FF_def prepareReceivedMessageHeaders_def paddingMessage_def
      memcpy_def clear_def frame_bytes_def Let_def upt_rec)

theorem transfer_state_invariant_witness:
  "reachable j2534_std (fst (snd (snd (readMsg j2534_std (fc_env 8) Map.empty io0 fresh_transfer first_frame10))))
   \<and> mState (fst (snd (snd (readMsg j2534_std (fc_env 8) Map.empty io0 fresh_transfer first_frame10))))
        = BLOCK_STATE
   \<and> mOffset (fst (snd (snd (readMsg j2534_std (fc_env 8) Map.empty io0 fresh_transfer first_frame10))))
        = 10
   \<and> (mState (fst (snd (snd (readMsg j2534_std (fc_env 8) Map.empty io0 fresh_transfer first_frame10))))
        = START_STATE
      \<longleftrightarrow> mOffset (fst (snd (snd (readMsg j2534_std (fc_env 8) Map.empty io0 fresh_transfer first_frame10)))) = 0
        \<and> mSequence (fst (snd (snd (readMsg j2534_std (fc_env 8) Map.empty io0 fresh_transfer first_frame10)))) = 0
        \<and> mBs (fst (snd (snd (readMsg j2534_std (fc_env 8) Map.empty io0 fresh_transfer first_frame10)))) = 0
        \<and> mStmin (fst (snd (snd (readMsg j2534_std (fc_env 8) Map.empty io0 fresh_transfer first_frame10)))) = 0)"
proof -
  let ?run = "readMsg j2534_std (fc_env 8) Map.empty io0 fresh_transfer first_frame10"
  have r0: "reachable j2534_std fresh_transfer"
    unfolding fresh_transfer_def by (rule reachable.ctor)
  have r1: "reachable j2534_std (fst (snd (snd ?run)))"
    by (rule reachable.readMsg [OF r0, of "fc_env 8" Map.empty io0 first_frame10
          "fst ?run" "fst (snd ?run)" _ "snd (snd (snd ?run))"]) simp
  have st: "mState (fst (snd (snd ?run))) = BLOCK_STATE" "mOffset (fst (snd (snd ?run))) = 10"
    using read_first_frame by (simp_all split: prod.splits)
  show ?thesis
    using r1 st transfer_state_invariant [OF r1] by simp
qed

subsection \<open>The failures that do reset the transfer\<close>

text \<open>
  When \<open>writeMsg\<close> returns \<open>false\<close>, the transfer is reset unless the return was the one at
  the top of the loop, taken when the clock showed no time left. When \<open>readMsg\<close> returns
  through \<open>fail\<close>, the transfer is reset and nothing is stored into \<open>out_msg\<close>.
\<close>

lemma writeMsg_loop_false:
  "case writeMsg_loop K E dl msg t w of
     (r, t', w') \<Rightarrow> r \<or> is_reset t' \<or> (0 < tick w' \<and> remaining dl (now_at E (tick w' - 1)) = 0)"
proof (rule writeMsg_loop_rule [where I = "\<lambda>t w. True"])
  fix ta wa res
  assume body: "writeMsg_body K E dl msg ta wa = Inl res"
  obtain rr tb wb where res': "res = (rr, tb, wb)" by (cases res)
  from body [unfolded res']
  show "case res of (r, t', w') \<Rightarrow> r \<or> is_reset t' \<or> (0 < tick w' \<and> remaining dl (now_at E (tick w' - 1)) = 0)"
    by (cases rule: writeMsg_body_InlE) (simp_all add: res' is_reset_clear)
qed (simp_all add: is_reset_clear)

lemma writeMsg_false_reset_unless_deadline:
  assumes "writeMsg K E w t msg timeout = (Inr False, t', w')"
  shows "is_reset t'
    \<or> (0 < tick w' \<and> remaining (now_at E (tick w) + uint timeout) (now_at E (tick w' - 1)) = 0)"
proof -
  have nt: "\<not> DataSize msg < 4" using assms by (auto simp: writeMsg_def Let_def steady_clock_now_def)
  show ?thesis
  proof (cases "mState t = START_STATE")
    case False
    then have "t' = clear t" using assms nt by (simp add: writeMsg_def Let_def steady_clock_now_def)
    then show ?thesis by (simp add: is_reset_clear)
  next
    case True
    then have "writeMsg_loop K E (now_at E (tick w) + uint timeout) msg t (w\<lparr>tick := Suc (tick w)\<rparr>)
        = (False, t', w')"
      using assms nt by (simp add: writeMsg_def Let_def steady_clock_now_def split: prod.splits)
    then show ?thesis
      using writeMsg_loop_false [where K = K and E = E and dl = "now_at E (tick w) + uint timeout"
          and msg = msg and t = t and w = "w\<lparr>tick := Suc (tick w)\<rparr>"]
      by simp
  qed
qed

lemma readMsg_finish_not_Failed: "fst (readMsg_finish t w) \<noteq> Failed"
  by (simp add: readMsg_finish_def)

lemma readMsg_failure_resets:
  assumes "readMsg_exit K E cfg w t in_msg = (Failed, out_msg, t', w')"
  shows "is_reset t' \<and> out_msg = None"
  using assms readMsg_finish_not_Failed
  by (auto simp: readMsg_exit_def Let_def is_reset_clear split: if_splits TransferState.splits prod.splits)
     (metis fst_conv)+

end
